theory Spec2Isabelle
  imports Complex_Main
begin

section \<open>The hash table of HashTable.cpp\<close>

text \<open>
  \<^verbatim>\<open>HashMap<KeyType, ValueType, Hash>\<close> keeps its key-value pairs in a
  \<^verbatim>\<open>std::list\<close> (\<^verbatim>\<open>elements_\<close>) and, in \<^verbatim>\<open>hash_table_\<close>, one vector of list
  iterators per bucket. A list iterator is the address of a list node, and the same node
  is reached from the list and from its bucket, so the nodes live in an explicit store that
  all tables of a program share: a map from node addresses to the pair stored there.

  A \<^verbatim>\<open>std::list\<close> is modelled by the sequence of the addresses of its nodes, first
  node first; the links between the nodes are not modelled. The iterator \<^verbatim>\<open>end()\<close>
  is \<open>None\<close>, an iterator to a node is \<open>Some\<close> of its address.

  What the C++ standard leaves undefined (a division by zero, an index outside a vector,
  the use of an iterator whose node is gone) and the exception of \<^verbatim>\<open>at\<close> are values
  of the type \<open>error\<close>; a function that can meet one returns \<open>error + 'a\<close>.
\<close>

subsection \<open>Nodes and the store\<close>

type_synonym addr = nat

datatype error =
    out_of_range          \<comment> \<open>\<^verbatim>\<open>throw std::out_of_range("No such key!")\<close>\<close>
  | division_by_zero      \<comment> \<open>\<^verbatim>\<open>raw_hash % capacity_\<close> with \<^verbatim>\<open>capacity_ == 0\<close>\<close>
  | index_out_of_bounds   \<comment> \<open>\<^verbatim>\<open>v[i]\<close> or \<^verbatim>\<open>v.back()\<close> outside the vector \<^verbatim>\<open>v\<close>\<close>
  | invalid_iterator      \<comment> \<open>an iterator that points to no node of the list\<close>

record ('k, 'v) heap =
  cells :: "addr \<Rightarrow> ('k \<times> 'v) option"
  next_addr :: addr

definition empty_heap :: "('k, 'v) heap" where
  "empty_heap = \<lparr>cells = (\<lambda>a. None), next_addr = 0\<rparr>"

text \<open>Allocation of a list node: the allocator hands out addresses in increasing order
  and never hands out an address twice.\<close>

definition new_node :: "('k, 'v) heap \<Rightarrow> 'k \<times> 'v \<Rightarrow> addr \<times> ('k, 'v) heap" where
  "new_node h el =
     (next_addr h, h\<lparr>cells := (cells h)(next_addr h \<mapsto> el), next_addr := Suc (next_addr h)\<rparr>)"

definition delete_node :: "('k, 'v) heap \<Rightarrow> addr \<Rightarrow> ('k, 'v) heap" where
  "delete_node h a = h\<lparr>cells := (cells h)(a := None)\<rparr>"

text \<open>\<^verbatim>\<open>it->second = v\<close>: a write through a reference to the value of a node. The key of
  a node is \<^verbatim>\<open>const\<close>.\<close>

definition write_value :: "('k, 'v) heap \<Rightarrow> addr \<Rightarrow> 'v \<Rightarrow> error + ('k, 'v) heap" where
  "write_value h a v =
     (case cells h a of
        None \<Rightarrow> Inl invalid_iterator
      | Some el \<Rightarrow> Inr (h\<lparr>cells := (cells h)(a \<mapsto> (fst el, v))\<rparr>))"

subsection \<open>The table\<close>

record 'k HashMap =
  capacity_' :: nat
  size_' :: nat
  hash_' :: "'k \<Rightarrow> nat"
  hash_table_' :: "addr list list"
  elements_' :: "addr list"

definition kDefaultCapacity :: nat where
  "kDefaultCapacity = 1"

definition kPersentageOfCapacityToDecrease :: rat where
  "kPersentageOfCapacityToDecrease = 1 / 8"

definition kPersentageOfCapacityToIncrease :: rat where
  "kPersentageOfCapacityToIncrease = 1 / 2"

definition kDecreasingFactor :: rat where
  "kDecreasingFactor = 2"

definition kIncreasingFactor :: rat where
  "kIncreasingFactor = 2"


text \<open>
  The members keep their names, with a prime after the underscore that no name can end
  with. \<^verbatim>\<open>capacity_\<close> and \<^verbatim>\<open>size_\<close> are \<^verbatim>\<open>size_t\<close> in the source and natural
  numbers here, and the \<^verbatim>\<open>double\<close> products and quotients of \<^verbatim>\<open>rebuild_if_needed\<close>
  are exact rationals here. The two agree while the numbers stay below \<open>2 ^ 53\<close>, where
  \<^verbatim>\<open>size_++\<close> does not wrap and the conversions between \<^verbatim>\<open>size_t\<close> and \<^verbatim>\<open>double\<close>
  are exact; a list of that many nodes does not fit the memory the program runs in.
  \<^verbatim>\<open>size_--\<close> runs only after a node was found, and is the subtraction of natural
  numbers. The result of \<^verbatim>\<open>hash_\<close>, a \<^verbatim>\<open>size_t\<close>, is a natural number as well.
\<close>

subsection \<open>Private member functions\<close>

text \<open>The loop of \<^verbatim>\<open>get_position\<close> over one bucket, from position \<open>i\<close> on: the first
  position whose node has the key, or \<open>-1\<close>.\<close>

fun get_position_loop :: "('k, 'v) heap \<Rightarrow> addr list \<Rightarrow> 'k \<Rightarrow> int \<Rightarrow> error + int" where
  "get_position_loop h [] key i = Inr (- 1)"
| "get_position_loop h (it # its) key i =
     (case cells h it of
        None \<Rightarrow> Inl invalid_iterator
      | Some el \<Rightarrow> if fst el = key then Inr i else get_position_loop h its key (i + 1))"

definition get_position ::
  "('k, 'v) heap \<Rightarrow> 'k HashMap \<Rightarrow> 'k \<Rightarrow> nat \<Rightarrow> error + (nat \<times> int)" where
  "get_position h t key raw_hash =
     (if capacity_' t = 0 then Inl division_by_zero
      else let hash = raw_hash mod capacity_' t in
        if hash < length (hash_table_' t) then
          (case get_position_loop h (hash_table_' t ! hash) key 0 of
             Inl e \<Rightarrow> Inl e
           | Inr ind \<Rightarrow> Inr (hash, ind))
        else Inl index_out_of_bounds)"

text \<open>The loop of \<^verbatim>\<open>rebuild\<close> over the nodes of \<^verbatim>\<open>elements_\<close>, with the new
  capacity \<open>cap\<close> and the bucket array built so far.\<close>

fun rebuild_loop ::
  "('k, 'v) heap \<Rightarrow> ('k \<Rightarrow> nat) \<Rightarrow> nat \<Rightarrow> addr list \<Rightarrow> addr list list \<Rightarrow> error + addr list list" where
  "rebuild_loop h hash cap [] tbl = Inr tbl"
| "rebuild_loop h hash cap (it # its) tbl =
     (case cells h it of
        None \<Rightarrow> Inl invalid_iterator
      | Some el \<Rightarrow>
          if cap = 0 then Inl division_by_zero
          else let hh = hash (fst el) mod cap in
            if hh < length tbl then rebuild_loop h hash cap its (tbl[hh := tbl ! hh @ [it]])
            else Inl index_out_of_bounds)"

definition rebuild :: "('k, 'v) heap \<Rightarrow> 'k HashMap \<Rightarrow> nat \<Rightarrow> error + 'k HashMap" where
  "rebuild h t new_capacity =
     (case rebuild_loop h (hash_' t) new_capacity (elements_' t) (replicate new_capacity []) of
        Inl e \<Rightarrow> Inl e
      | Inr tbl \<Rightarrow> Inr (t\<lparr>hash_table_' := tbl, capacity_' := new_capacity\<rparr>))"

text \<open>The conversion of a non-negative \<^verbatim>\<open>double\<close> to \<^verbatim>\<open>size_t\<close> drops the fraction.\<close>

definition to_size_t :: "rat \<Rightarrow> nat" where
  "to_size_t x = nat \<lfloor>x\<rfloor>"

definition rebuild_if_needed :: "('k, 'v) heap \<Rightarrow> 'k HashMap \<Rightarrow> error + 'k HashMap" where
  "rebuild_if_needed h t =
     (if of_nat (size_' t) \<ge> kPersentageOfCapacityToIncrease * of_nat (capacity_' t) then
        rebuild h t (to_size_t (of_nat (capacity_' t) * kIncreasingFactor))
      else if of_nat (size_' t) \<le> kPersentageOfCapacityToDecrease * of_nat (capacity_' t)
              \<and> capacity_' t > kDefaultCapacity then
        rebuild h t (to_size_t (of_nat (capacity_' t) / kDecreasingFactor))
      else Inr t)"

text \<open>\<^verbatim>\<open>add_element\<close> returns the raw hash of the key; the store and the table it leaves
  are returned with it.\<close>

definition add_element ::
  "('k, 'v) heap \<Rightarrow> 'k HashMap \<Rightarrow> 'k \<times> 'v \<Rightarrow> error + (('k, 'v) heap \<times> 'k HashMap \<times> nat)" where
  "add_element h t element =
     (let raw_hash = hash_' t (fst element) in
      (case get_position h t (fst element) raw_hash of
        Inl e \<Rightarrow> Inl e
      | Inr (hash, ind) \<Rightarrow>
          let (h1, t1) =
            (if ind = - 1 then
               let (it, h') = new_node h element in
               (h', t\<lparr>elements_' := elements_' t @ [it],
                      hash_table_' := (hash_table_' t)[hash := hash_table_' t ! hash @ [it]],
                      size_' := size_' t + 1\<rparr>)
             else (h, t))
          in (case rebuild_if_needed h1 t1 of
                Inl e \<Rightarrow> Inl e
              | Inr t2 \<Rightarrow> Inr (h1, t2, raw_hash))))"

text \<open>In \<^verbatim>\<open>delete_element\<close> the found iterator is swapped with the last one of its
  bucket, its node is erased from the list, and the bucket loses its last iterator.
  \<^verbatim>\<open>std::list::erase\<close> needs an iterator to a node of that list.\<close>

definition delete_element ::
  "('k, 'v) heap \<Rightarrow> 'k HashMap \<Rightarrow> 'k \<Rightarrow> error + (('k, 'v) heap \<times> 'k HashMap)" where
  "delete_element h t key =
     (let raw_hash = hash_' t key in
      case get_position h t key raw_hash of
        Inl e \<Rightarrow> Inl e
      | Inr (hash, ind) \<Rightarrow>
          if ind \<noteq> - 1 then
            (let bucket = hash_table_' t ! hash in
             if ind < 0 \<or> nat ind \<ge> length bucket then Inl index_out_of_bounds
             else
               let swapped = bucket[nat ind := last bucket, length bucket - 1 := bucket ! nat ind];
                   victim = last swapped in
               if victim \<in> set (elements_' t) then
                 (let h1 = delete_node h victim;
                      t1 = t\<lparr>elements_' := remove1 victim (elements_' t),
                             hash_table_' := (hash_table_' t)[hash := butlast swapped],
                             size_' := size_' t - 1\<rparr>
                  in (case rebuild_if_needed h1 t1 of
                        Inl e \<Rightarrow> Inl e
                      | Inr t2 \<Rightarrow> Inr (h1, t2)))
               else Inl invalid_iterator)
          else
            (case rebuild_if_needed h t of
               Inl e \<Rightarrow> Inl e
             | Inr t2 \<Rightarrow> Inr (h, t2)))"

subsection \<open>Constructors and assignment\<close>

text \<open>\<^verbatim>\<open>explicit HashMap(Hash hash = Hash{})\<close>.\<close>

definition HashMap_ctor :: "('k \<Rightarrow> nat) \<Rightarrow> 'k HashMap" where
  "HashMap_ctor hash =
     \<lparr>capacity_' = kDefaultCapacity, size_' = 0, hash_' = hash,
      hash_table_' = replicate kDefaultCapacity [], elements_' = []\<rparr>"

text \<open>The loop of the constructors from a range and from an initializer list.\<close>

fun add_elements ::
  "('k, 'v) heap \<Rightarrow> 'k HashMap \<Rightarrow> ('k \<times> 'v) list \<Rightarrow> error + (('k, 'v) heap \<times> 'k HashMap)" where
  "add_elements h t [] = Inr (h, t)"
| "add_elements h t (el # els) =
     (case add_element h t el of
        Inl e \<Rightarrow> Inl e
      | Inr (h1, t1, raw_hash) \<Rightarrow> add_elements h1 t1 els)"

definition HashMap_range ::
  "('k, 'v) heap \<Rightarrow> ('k \<times> 'v) list \<Rightarrow> ('k \<Rightarrow> nat) \<Rightarrow> error + (('k, 'v) heap \<times> 'k HashMap)" where
  "HashMap_range h init_list hash =
     add_elements h
       \<lparr>capacity_' = kDefaultCapacity, size_' = 0, hash_' = hash,
        hash_table_' = replicate kDefaultCapacity [], elements_' = []\<rparr>
       init_list"

text \<open>The copy constructor of \<^verbatim>\<open>std::list\<close>: a new node for every node, in order.\<close>

fun list_copy :: "('k, 'v) heap \<Rightarrow> addr list \<Rightarrow> error + (('k, 'v) heap \<times> addr list)" where
  "list_copy h [] = Inr (h, [])"
| "list_copy h (a # as) =
     (case cells h a of
        None \<Rightarrow> Inl invalid_iterator
      | Some el \<Rightarrow>
          (case list_copy (snd (new_node h el)) as of
             Inl e \<Rightarrow> Inl e
           | Inr (h2, bs) \<Rightarrow> Inr (h2, fst (new_node h el) # bs)))"

text \<open>The destructor of \<^verbatim>\<open>std::list\<close>, and \<^verbatim>\<open>clear\<close>: every node is deleted.\<close>

definition list_delete :: "('k, 'v) heap \<Rightarrow> addr list \<Rightarrow> ('k, 'v) heap" where
  "list_delete h as = fold (\<lambda>a h'. delete_node h' a) as h"

text \<open>\<^verbatim>\<open>HashMap(const HashMap& other)\<close>: \<^verbatim>\<open>capacity_\<close> and \<^verbatim>\<open>hash_table_\<close> start from
  their default member initializers before \<^verbatim>\<open>rebuild\<close> runs.\<close>

definition HashMap_copy ::
  "('k, 'v) heap \<Rightarrow> 'k HashMap \<Rightarrow> error + (('k, 'v) heap \<times> 'k HashMap)" where
  "HashMap_copy h other =
     (case list_copy h (elements_' other) of
        Inl e \<Rightarrow> Inl e
      | Inr (h1, els) \<Rightarrow>
          (case rebuild h1
                  \<lparr>capacity_' = kDefaultCapacity, size_' = size_' other, hash_' = hash_' other,
                   hash_table_' = [], elements_' = els\<rparr>
                  (capacity_' other) of
             Inl e \<Rightarrow> Inl e
           | Inr t \<Rightarrow> Inr (h1, t)))"

text \<open>\<^verbatim>\<open>HashMap(HashMap&& other)\<close> returns the new table and what is left of \<open>other\<close>.
  A \<^verbatim>\<open>std::vector\<close> and a \<^verbatim>\<open>std::list\<close> that were moved from are empty; the
  \<^verbatim>\<open>size_t\<close> members of \<open>other\<close> are read, not written.\<close>

definition HashMap_move :: "'k HashMap \<Rightarrow> 'k HashMap \<times> 'k HashMap" where
  "HashMap_move other =
     (\<lparr>capacity_' = capacity_' other, size_' = size_' other, hash_' = hash_' other,
       hash_table_' = hash_table_' other, elements_' = elements_' other\<rparr>,
      other\<lparr>hash_table_' := [], elements_' := []\<rparr>)"

text \<open>\<^verbatim>\<open>operator=(const HashMap& other)\<close>: the temporary copy of \<^verbatim>\<open>other.elements_\<close> is
  made first, then it replaces \<^verbatim>\<open>elements_\<close>, whose old nodes are deleted.\<close>

definition copy_assign ::
  "('k, 'v) heap \<Rightarrow> 'k HashMap \<Rightarrow> 'k HashMap \<Rightarrow> error + (('k, 'v) heap \<times> 'k HashMap)" where
  "copy_assign h t other =
     (case list_copy h (elements_' other) of
        Inl e \<Rightarrow> Inl e
      | Inr (h1, els) \<Rightarrow>
          let h2 = list_delete h1 (elements_' t) in
          (case rebuild h2
                  (t\<lparr>hash_' := hash_' other, elements_' := els, size_' := size_' other\<rparr>)
                  (capacity_' other) of
             Inl e \<Rightarrow> Inl e
           | Inr t1 \<Rightarrow> Inr (h2, t1)))"

text \<open>\<^verbatim>\<open>operator=(HashMap&& other)\<close>, for \<open>other\<close> an object other than \<^verbatim>\<open>*this\<close>:
  returns the store, the assigned table and what is left of \<open>other\<close>.\<close>

definition move_assign ::
  "('k, 'v) heap \<Rightarrow> 'k HashMap \<Rightarrow> 'k HashMap \<Rightarrow> ('k, 'v) heap \<times> 'k HashMap \<times> 'k HashMap" where
  "move_assign h t other =
     (list_delete h (elements_' t),
      t\<lparr>hash_' := hash_' other, elements_' := elements_' other, size_' := size_' other,
        capacity_' := capacity_' other, hash_table_' := hash_table_' other\<rparr>,
      other\<lparr>elements_' := [], hash_table_' := []\<rparr>)"

subsection \<open>Public member functions\<close>

text \<open>\<^verbatim>\<open>size\<close>, \<^verbatim>\<open>empty\<close>, \<^verbatim>\<open>insert\<close>, \<^verbatim>\<open>find\<close> and \<^verbatim>\<open>at\<close> carry the suffix
  \<open>_op\<close>, \<^verbatim>\<open>operator[]\<close> is \<open>subscript\<close>.\<close>

definition size_op :: "'k HashMap \<Rightarrow> nat" where
  "size_op t = size_' t"

definition empty_op :: "'k HashMap \<Rightarrow> bool" where
  "empty_op t = (size_' t = 0)"

definition hash_function :: "'k HashMap \<Rightarrow> 'k \<Rightarrow> nat" where
  "hash_function t = hash_' t"

definition insert_op ::
  "('k, 'v) heap \<Rightarrow> 'k HashMap \<Rightarrow> 'k \<times> 'v \<Rightarrow> error + (('k, 'v) heap \<times> 'k HashMap)" where
  "insert_op h t el =
     (case add_element h t el of
        Inl e \<Rightarrow> Inl e
      | Inr (h1, t1, raw_hash) \<Rightarrow> Inr (h1, t1))"

definition erase ::
  "('k, 'v) heap \<Rightarrow> 'k HashMap \<Rightarrow> 'k \<Rightarrow> error + (('k, 'v) heap \<times> 'k HashMap)" where
  "erase h t el = delete_element h t el"

text \<open>\<^verbatim>\<open>begin()\<close> and \<^verbatim>\<open>end()\<close> are those of \<^verbatim>\<open>elements_\<close>. A full iteration from
  \<^verbatim>\<open>begin()\<close> to \<^verbatim>\<open>end()\<close> reads every node of the list in order.\<close>

definition begin_iterator :: "'k HashMap \<Rightarrow> addr option" where
  "begin_iterator t = (case elements_' t of [] \<Rightarrow> None | a # as \<Rightarrow> Some a)"

definition end_iterator :: "'k HashMap \<Rightarrow> addr option" where
  "end_iterator t = None"

fun iterate_nodes :: "('k, 'v) heap \<Rightarrow> addr list \<Rightarrow> error + ('k \<times> 'v) list" where
  "iterate_nodes h [] = Inr []"
| "iterate_nodes h (a # as) =
     (case cells h a of
        None \<Rightarrow> Inl invalid_iterator
      | Some el \<Rightarrow>
          (case iterate_nodes h as of
             Inl e \<Rightarrow> Inl e
           | Inr els \<Rightarrow> Inr (el # els)))"

definition iterate :: "('k, 'v) heap \<Rightarrow> 'k HashMap \<Rightarrow> error + ('k \<times> 'v) list" where
  "iterate h t = iterate_nodes h (elements_' t)"

definition find_op :: "('k, 'v) heap \<Rightarrow> 'k HashMap \<Rightarrow> 'k \<Rightarrow> error + addr option" where
  "find_op h t key =
     (let raw_hash = hash_' t key in
      case get_position h t key raw_hash of
        Inl e \<Rightarrow> Inl e
      | Inr (hash, ind) \<Rightarrow>
          if ind \<noteq> - 1 then
            (if ind < 0 \<or> nat ind \<ge> length (hash_table_' t ! hash) then Inl index_out_of_bounds
             else Inr (Some (hash_table_' t ! hash ! nat ind)))
          else Inr (end_iterator t))"

text \<open>\<^verbatim>\<open>operator[]\<close>, with the value \<^verbatim>\<open>ValueType()\<close> as the parameter \<open>dflt\<close>. The
  reference it returns is the address of the node whose value it refers to.\<close>

definition subscript ::
  "'v \<Rightarrow> ('k, 'v) heap \<Rightarrow> 'k HashMap \<Rightarrow> 'k \<Rightarrow> error + (('k, 'v) heap \<times> 'k HashMap \<times> addr)" where
  "subscript dflt h t key =
     (case add_element h t (key, dflt) of
        Inl e \<Rightarrow> Inl e
      | Inr (h1, t1, raw_hash) \<Rightarrow>
          (case get_position h1 t1 key raw_hash of
             Inl e \<Rightarrow> Inl e
           | Inr (hash, ind) \<Rightarrow>
               if ind < 0 \<or> nat ind \<ge> length (hash_table_' t1 ! hash) then Inl index_out_of_bounds
               else
                 let it = hash_table_' t1 ! hash ! nat ind in
                 (case cells h1 it of
                    None \<Rightarrow> Inl invalid_iterator
                  | Some el \<Rightarrow> Inr (h1, t1, it))))"

text \<open>\<^verbatim>\<open>at\<close> returns a reference to the value of the node found: the address of the node.\<close>

definition at_op :: "('k, 'v) heap \<Rightarrow> 'k HashMap \<Rightarrow> 'k \<Rightarrow> error + addr" where
  "at_op h t key =
     (case find_op h t key of
        Inl e \<Rightarrow> Inl e
      | Inr it \<Rightarrow>
          if it \<noteq> end_iterator t then
            (case cells h (the it) of
               None \<Rightarrow> Inl invalid_iterator
             | Some el \<Rightarrow> Inr (the it))
          else Inl out_of_range)"

definition clear :: "('k, 'v) heap \<Rightarrow> 'k HashMap \<Rightarrow> ('k, 'v) heap \<times> 'k HashMap" where
  "clear h t =
     (list_delete h (elements_' t),
      t\<lparr>elements_' := [], size_' := 0,
        hash_table_' := replicate kDefaultCapacity [], capacity_' := kDefaultCapacity\<rparr>)"

section \<open>What holds of a table between two operations\<close>

subsection \<open>The store\<close>

text \<open>No node lives at an address the allocator has not handed out yet.\<close>

definition heap_ok :: "('k, 'v) heap \<Rightarrow> bool" where
  "heap_ok h \<longleftrightarrow> (\<forall>a. next_addr h \<le> a \<longrightarrow> cells h a = None)"

text \<open>The key of the node at an address, and the bucket that key belongs to.\<close>

definition key_of :: "('k, 'v) heap \<Rightarrow> addr \<Rightarrow> 'k" where
  "key_of h a = fst (the (cells h a))"

definition bucket_of :: "('k, 'v) heap \<Rightarrow> 'k HashMap \<Rightarrow> addr \<Rightarrow> nat" where
  "bucket_of h t a = hash_' t (key_of h a) mod capacity_' t"

subsection \<open>The list and the bucket array\<close>

text \<open>The list: \<^verbatim>\<open>size_\<close> is its length, its nodes are live and pairwise different,
  and no two of them have the same key.\<close>

definition list_ok :: "('k, 'v) heap \<Rightarrow> 'k HashMap \<Rightarrow> bool" where
  "list_ok h t \<longleftrightarrow>
     size_' t = length (elements_' t) \<and> distinct (elements_' t) \<and>
     (\<forall>a\<in>set (elements_' t). cells h a \<noteq> None) \<and>
     distinct (map (key_of h) (elements_' t))"

text \<open>The bucket array: it has \<^verbatim>\<open>capacity_\<close> buckets, at least one, and bucket \<open>b\<close>
  holds, once each, the nodes of the list whose key hashes to \<open>b\<close> modulo the capacity.\<close>

definition index_ok :: "('k, 'v) heap \<Rightarrow> 'k HashMap \<Rightarrow> bool" where
  "index_ok h t \<longleftrightarrow>
     1 \<le> capacity_' t \<and> length (hash_table_' t) = capacity_' t \<and>
     (\<forall>b<capacity_' t. distinct (hash_table_' t ! b) \<and>
        set (hash_table_' t ! b) = {a \<in> set (elements_' t). bucket_of h t a = b})"

definition consistent :: "('k, 'v) heap \<Rightarrow> 'k HashMap \<Rightarrow> bool" where
  "consistent h t \<longleftrightarrow> list_ok h t \<and> index_ok h t"

text \<open>The capacity \<^verbatim>\<open>rebuild_if_needed\<close> leaves for size \<open>s\<close> and capacity \<open>c\<close>,
  with its two thresholds in natural numbers.\<close>

definition capacity_after :: "nat \<Rightarrow> nat \<Rightarrow> nat" where
  "capacity_after s c =
     (if c \<le> 2 * s then 2 * c else if 8 * s \<le> c \<and> 1 < c then c div 2 else c)"

definition load_ok :: "'k HashMap \<Rightarrow> bool" where
  "load_ok t \<longleftrightarrow> 2 * size_' t \<le> capacity_' t"

definition table_ok :: "('k, 'v) heap \<Rightarrow> 'k HashMap \<Rightarrow> bool" where
  "table_ok h t \<longleftrightarrow> consistent h t \<and> load_ok t"

subsection \<open>The effect of an operation on the store\<close>

text \<open>From \<open>h\<close> to \<open>h'\<close> no node outside \<open>A\<close> that existed in \<open>h\<close> has changed, and
  the table \<open>t'\<close> owns only nodes of \<open>A\<close> and nodes allocated since \<open>h\<close>.\<close>

definition unchanged_outside :: "addr set \<Rightarrow> ('k, 'v) heap \<Rightarrow> ('k, 'v) heap \<Rightarrow> bool" where
  "unchanged_outside A h h' \<longleftrightarrow>
     next_addr h \<le> next_addr h' \<and> (\<forall>a. a < next_addr h \<longrightarrow> a \<notin> A \<longrightarrow> cells h' a = cells h a)"

definition owned_after :: "addr set \<Rightarrow> ('k, 'v) heap \<Rightarrow> 'k HashMap \<Rightarrow> bool" where
  "owned_after A h t' \<longleftrightarrow> set (elements_' t') \<subseteq> A \<union> {a. next_addr h \<le> a}"

section \<open>Programs that use tables\<close>

text \<open>
  A world is the store and the tables of a program, each under the name of its variable.
  The reachable worlds are those a program gets to from no table at all by the public
  operations: the constructors, copy and move construction, copy and move assignment,
  \<^verbatim>\<open>insert\<close>, \<^verbatim>\<open>erase\<close>, \<^verbatim>\<open>operator[]\<close>, a write through a reference or an
  iterator to an entry of a table, \<^verbatim>\<open>clear\<close>, and the end of a table's life. The
  constructor from a range and the one from an initializer list run the same loop and are
  one rule. An operation that meets undefined behaviour reaches nothing.

  These are the programs that treat \<^verbatim>\<open>std::move\<close> as the end of the use of its
  argument: the table moved from leaves the world with the move, and no table is move
  assigned to itself. The code lets a program go on with the table moved from; what the
  move constructor and the move assignment leave in it, and what the operations do with
  it, is evaluated on its own further down.
\<close>

type_synonym var = nat

record ('k, 'v) world =
  store :: "('k, 'v) heap"
  tables :: "var \<Rightarrow> 'k HashMap option"

definition empty_world :: "('k, 'v) world" where
  "empty_world = \<lparr>store = empty_heap, tables = (\<lambda>x. None)\<rparr>"

inductive reachable :: "('k, 'v) world \<Rightarrow> bool" where
  by_start: "reachable empty_world"
| by_construct:
    "reachable w \<Longrightarrow> tables w x = None \<Longrightarrow>
     reachable (w\<lparr>tables := (tables w)(x \<mapsto> HashMap_ctor hash)\<rparr>)"
| by_construct_range:
    "reachable w \<Longrightarrow> tables w x = None \<Longrightarrow> HashMap_range (store w) init_list hash = Inr (h', t') \<Longrightarrow>
     reachable \<lparr>store = h', tables = (tables w)(x \<mapsto> t')\<rparr>"
| by_copy_construct:
    "reachable w \<Longrightarrow> tables w x = None \<Longrightarrow> tables w y = Some other \<Longrightarrow>
     HashMap_copy (store w) other = Inr (h', t') \<Longrightarrow>
     reachable \<lparr>store = h', tables = (tables w)(x \<mapsto> t')\<rparr>"
| by_move_construct:
    "reachable w \<Longrightarrow> tables w x = None \<Longrightarrow> tables w y = Some other \<Longrightarrow>
     reachable (w\<lparr>tables := (tables w)(y := None, x \<mapsto> fst (HashMap_move other))\<rparr>)"
| by_copy_assignment:
    "reachable w \<Longrightarrow> tables w x = Some t \<Longrightarrow> tables w y = Some other \<Longrightarrow>
     copy_assign (store w) t other = Inr (h', t') \<Longrightarrow>
     reachable \<lparr>store = h', tables = (tables w)(x \<mapsto> t')\<rparr>"
| by_move_assignment:
    "reachable w \<Longrightarrow> tables w x = Some t \<Longrightarrow> tables w y = Some other \<Longrightarrow> x \<noteq> y \<Longrightarrow>
     move_assign (store w) t other = (h', t', other') \<Longrightarrow>
     reachable \<lparr>store = h', tables = (tables w)(y := None, x \<mapsto> t')\<rparr>"
| by_insert:
    "reachable w \<Longrightarrow> tables w x = Some t \<Longrightarrow> insert_op (store w) t el = Inr (h', t') \<Longrightarrow>
     reachable \<lparr>store = h', tables = (tables w)(x \<mapsto> t')\<rparr>"
| by_erase:
    "reachable w \<Longrightarrow> tables w x = Some t \<Longrightarrow> erase (store w) t key = Inr (h', t') \<Longrightarrow>
     reachable \<lparr>store = h', tables = (tables w)(x \<mapsto> t')\<rparr>"
| by_subscript:
    "reachable w \<Longrightarrow> tables w x = Some t \<Longrightarrow> subscript dflt (store w) t key = Inr (h', t', r) \<Longrightarrow>
     reachable \<lparr>store = h', tables = (tables w)(x \<mapsto> t')\<rparr>"
| by_write:
    "reachable w \<Longrightarrow> tables w x = Some t \<Longrightarrow> r \<in> set (elements_' t) \<Longrightarrow>
     write_value (store w) r v = Inr h' \<Longrightarrow>
     reachable (w\<lparr>store := h'\<rparr>)"
| by_clear:
    "reachable w \<Longrightarrow> tables w x = Some t \<Longrightarrow> clear (store w) t = (h', t') \<Longrightarrow>
     reachable \<lparr>store = h', tables = (tables w)(x \<mapsto> t')\<rparr>"
| by_destroy:
    "reachable w \<Longrightarrow> tables w x = Some t \<Longrightarrow>
     reachable \<lparr>store = list_delete (store w) (elements_' t), tables = (tables w)(x := None)\<rparr>"

text \<open>In a world in order the store and every table are in order, and no node belongs to
  two tables.\<close>

definition world_ok :: "('k, 'v) world \<Rightarrow> bool" where
  "world_ok w \<longleftrightarrow>
     heap_ok (store w) \<and>
     (\<forall>x t. tables w x = Some t \<longrightarrow> table_ok (store w) t) \<and>
     (\<forall>x y t u. tables w x = Some t \<longrightarrow> tables w y = Some u \<longrightarrow> x \<noteq> y \<longrightarrow>
        set (elements_' t) \<inter> set (elements_' u) = {})"

section \<open>Scenarios\<close>

text \<open>The sizes and capacities seen after each of a sequence of calls of \<^verbatim>\<open>insert\<close>,
  and what the rehash check makes of them for keys that are all new.\<close>

fun insert_trace ::
  "('k, 'v) heap \<Rightarrow> 'k HashMap \<Rightarrow> ('k \<times> 'v) list \<Rightarrow> error + (nat \<times> nat) list" where
  "insert_trace h t [] = Inr []"
| "insert_trace h t (el # els) =
     (case insert_op h t el of
        Inl e \<Rightarrow> Inl e
      | Inr (h1, t1) \<Rightarrow>
          (case insert_trace h1 t1 els of
             Inl e \<Rightarrow> Inl e
           | Inr cs \<Rightarrow> Inr ((size_op t1, capacity_' t1) # cs)))"

fun capacity_trace :: "nat \<Rightarrow> nat \<Rightarrow> nat \<Rightarrow> (nat \<times> nat) list" where
  "capacity_trace s c 0 = []"
| "capacity_trace s c (Suc n) =
     (s + 1, capacity_after (s + 1) c) # capacity_trace (s + 1) (capacity_after (s + 1) c) n"

text \<open>Two hashers for \<^verbatim>\<open>unsigned\<close> keys: one returns its argument, one sends every
  key to the same bucket.\<close>

definition identity_hash :: "nat \<Rightarrow> nat" where
  "identity_hash k = k"

definition zero_hash :: "nat \<Rightarrow> nat" where
  "zero_hash k = 0"

text \<open>The store and the table after
  \<^verbatim>\<open>HashMap<unsigned, unsigned, H> m; m.insert({1, 1});\<close> where \<^verbatim>\<open>H\<close> is the first
  hasher; the table after a second \<^verbatim>\<open>m.insert({1, 2});\<close>; and the store and the table
  \<^verbatim>\<open>n\<close> after \<^verbatim>\<open>HashMap<unsigned, unsigned, H> n(m);\<close>.\<close>

definition one_entry_heap :: "(nat, nat) heap" where
  "one_entry_heap = \<lparr>cells = [0 \<mapsto> (1, 1)], next_addr = 1\<rparr>"

definition one_entry_table :: "nat HashMap" where
  "one_entry_table =
     \<lparr>capacity_' = 2, size_' = 1, hash_' = identity_hash, hash_table_' = [[], [0]],
      elements_' = [0]\<rparr>"

definition grown_table :: "nat HashMap" where
  "grown_table =
     \<lparr>capacity_' = 4, size_' = 1, hash_' = identity_hash, hash_table_' = [[], [0], [], []],
      elements_' = [0]\<rparr>"

definition copy_heap :: "(nat, nat) heap" where
  "copy_heap = \<lparr>cells = [0 \<mapsto> (1, 1), 1 \<mapsto> (1, 1)], next_addr = 2\<rparr>"

definition copy_table :: "nat HashMap" where
  "copy_table =
     \<lparr>capacity_' = 2, size_' = 1, hash_' = identity_hash, hash_table_' = [[], [1]],
      elements_' = [1]\<rparr>"

definition one_entry_world :: "(nat, nat) world" where
  "one_entry_world = \<lparr>store = one_entry_heap, tables = [0 \<mapsto> one_entry_table]\<rparr>"

definition grown_world :: "(nat, nat) world" where
  "grown_world = \<lparr>store = one_entry_heap, tables = [0 \<mapsto> grown_table]\<rparr>"

definition two_table_world :: "(nat, nat) world" where
  "two_table_world =
     \<lparr>store = one_entry_heap, tables = [0 \<mapsto> one_entry_table, 1 \<mapsto> HashMap_ctor identity_hash]\<rparr>"

section \<open>The operations keep the tables in order\<close>

subsection \<open>The loop of \<^verbatim>\<open>get_position\<close>\<close>

lemma get_position_loop_absent:
  "\<forall>a\<in>set b. cells h a \<noteq> None \<and> key_of h a \<noteq> key \<Longrightarrow> get_position_loop h b key i = Inr (- 1)"
  by (induction b arbitrary: i) (auto simp: key_of_def)

lemma get_position_loop_present:
  "\<forall>a\<in>set b. cells h a \<noteq> None \<Longrightarrow> \<exists>a\<in>set b. key_of h a = key \<Longrightarrow>
   \<exists>j<length b. get_position_loop h b key i = Inr (i + int j) \<and> key_of h (b ! j) = key"
proof (induction b arbitrary: i)
  case Nil
  then show ?case by simp
next
  case (Cons a b)
  from Cons.prems(1) obtain el where el: "cells h a = Some el" by auto
  show ?case
  proof (cases "fst el = key")
    case True
    with el have "get_position_loop h (a # b) key i = Inr (i + int 0) \<and> key_of h ((a # b) ! 0) = key"
      by (simp add: key_of_def)
    then show ?thesis by blast
  next
    case False
    with el Cons.prems have "\<forall>a\<in>set b. cells h a \<noteq> None" "\<exists>a\<in>set b. key_of h a = key"
      by (auto simp: key_of_def)
    from Cons.IH[OF this, of "i + 1"] obtain j where
      j: "j < length b" "get_position_loop h b key (i + 1) = Inr (i + 1 + int j)" "key_of h (b ! j) = key"
      by blast
    with el False have "Suc j < length (a # b) \<and>
        get_position_loop h (a # b) key i = Inr (i + int (Suc j)) \<and> key_of h ((a # b) ! Suc j) = key"
      by simp
    then show ?thesis by blast
  qed
qed

subsection \<open>\<^verbatim>\<open>rebuild\<close> files every node under its bucket\<close>

lemma rebuild_loop_filter:
  "length tbl = cap \<Longrightarrow> \<forall>a\<in>set els. cells h a \<noteq> None \<Longrightarrow> 0 < cap \<or> els = [] \<Longrightarrow>
   rebuild_loop h hash cap els tbl =
     Inr (map (\<lambda>b. tbl ! b @ filter (\<lambda>a. hash (key_of h a) mod cap = b) els) [0..<cap])"
proof (induction els arbitrary: tbl)
  case Nil
  then have "cap = length tbl" by simp
  then show ?case by (simp add: map_nth)
next
  case (Cons a els)
  from Cons.prems(2) obtain el where el: "cells h a = Some el" by auto
  from Cons.prems(3) have False: "cap \<noteq> 0" by simp
  show ?case
  proof -
    let ?hh = "hash (fst el) mod cap"
    let ?tbl = "tbl[?hh := tbl ! ?hh @ [a]]"
    have hh: "?hh < length tbl" using False Cons.prems(1) by simp
    have len: "length ?tbl = cap" using Cons.prems(1) by simp
    have rest: "\<forall>a\<in>set els. cells h a \<noteq> None" using Cons.prems(2) by simp
    have "rebuild_loop h hash cap (a # els) tbl = rebuild_loop h hash cap els ?tbl"
      using el False hh by (simp add: Let_def)
    also have "\<dots> = Inr (map (\<lambda>b. ?tbl ! b @ filter (\<lambda>a. hash (key_of h a) mod cap = b) els) [0..<cap])"
      using False by (intro Cons.IH[OF len rest]) simp
    also have "map (\<lambda>b. ?tbl ! b @ filter (\<lambda>a. hash (key_of h a) mod cap = b) els) [0..<cap]
        = map (\<lambda>b. tbl ! b @ filter (\<lambda>a. hash (key_of h a) mod cap = b) (a # els)) [0..<cap]"
      using el hh Cons.prems(1) by (auto simp: key_of_def nth_list_update)
    finally show ?thesis .
  qed
qed

lemma rebuild_eq:
  "\<forall>a\<in>set (elements_' t). cells h a \<noteq> None \<Longrightarrow> 0 < cap \<or> elements_' t = [] \<Longrightarrow>
   rebuild h t cap =
     Inr (t\<lparr>hash_table_' := map (\<lambda>b. filter (\<lambda>a. hash_' t (key_of h a) mod cap = b) (elements_' t)) [0..<cap],
            capacity_' := cap\<rparr>)"
  by (simp add: rebuild_def rebuild_loop_filter cong: map_cong)

lemma rebuild_consistent:
  assumes "list_ok h t" "1 \<le> cap"
  shows "\<exists>t'. rebuild h t cap = Inr t' \<and> consistent h t' \<and> capacity_' t' = cap \<and>
           elements_' t' = elements_' t \<and> size_' t' = size_' t \<and> hash_' t' = hash_' t"
proof -
  let ?t = "t\<lparr>hash_table_' := map (\<lambda>b. filter (\<lambda>a. hash_' t (key_of h a) mod cap = b) (elements_' t)) [0..<cap],
            capacity_' := cap\<rparr>"
  have "rebuild h t cap = Inr ?t" using assms by (intro rebuild_eq) (simp_all add: list_ok_def)
  moreover have "list_ok h ?t" using assms(1) by (simp add: list_ok_def)
  moreover have "index_ok h ?t" using assms by (auto simp: index_ok_def list_ok_def bucket_of_def)
  ultimately show ?thesis by (simp add: consistent_def)
qed

subsection \<open>The thresholds of \<^verbatim>\<open>rebuild_if_needed\<close> in natural numbers\<close>

lemma grow_condition:
  "(kPersentageOfCapacityToIncrease * of_nat c \<le> (of_nat s :: rat)) = (c \<le> 2 * s)"
proof -
  have "(1 / 2 * (of_nat c :: rat) \<le> of_nat s) = ((of_nat c :: rat) \<le> of_nat (2 * s))"
    by (simp add: field_simps)
  then show ?thesis unfolding kPersentageOfCapacityToIncrease_def of_nat_le_iff .
qed

lemma shrink_condition:
  "((of_nat s :: rat) \<le> kPersentageOfCapacityToDecrease * of_nat c) = (8 * s \<le> c)"
proof -
  have "((of_nat s :: rat) \<le> 1 / 8 * of_nat c) = ((of_nat (8 * s) :: rat) \<le> of_nat c)"
    by (simp add: field_simps)
  then show ?thesis unfolding kPersentageOfCapacityToDecrease_def of_nat_le_iff .
qed

lemma grown_capacity: "to_size_t (of_nat c * kIncreasingFactor) = 2 * c"
proof -
  have "(of_nat c :: rat) * 2 = of_nat (2 * c)" by simp
  then show ?thesis unfolding to_size_t_def kIncreasingFactor_def by (simp only: floor_of_nat nat_int)
qed

lemma shrunk_capacity: "to_size_t (of_nat c / kDecreasingFactor) = c div 2"
proof -
  have "\<lfloor>(of_nat c :: rat) / of_nat 2\<rfloor> = int (c div 2)"
    by (simp only: floor_divide_of_nat_eq)
  then show ?thesis unfolding to_size_t_def kDecreasingFactor_def by simp
qed

lemma rebuild_if_needed_eq:
  "rebuild_if_needed h t =
     (if capacity_' t \<le> 2 * size_' t then rebuild h t (2 * capacity_' t)
      else if 8 * size_' t \<le> capacity_' t \<and> 1 < capacity_' t then rebuild h t (capacity_' t div 2)
      else Inr t)"
  by (simp add: rebuild_if_needed_def grow_condition shrink_condition
      grown_capacity shrunk_capacity kDefaultCapacity_def)

lemma rebuild_if_needed_consistent:
  assumes "consistent h t"
  shows "\<exists>t'. rebuild_if_needed h t = Inr t' \<and> consistent h t' \<and>
           capacity_' t' = capacity_after (size_' t) (capacity_' t) \<and>
           elements_' t' = elements_' t \<and> size_' t' = size_' t \<and> hash_' t' = hash_' t"
proof -
  from assms have l: "list_ok h t" and c: "1 \<le> capacity_' t" by (simp_all add: consistent_def index_ok_def)
  consider (grow) "capacity_' t \<le> 2 * size_' t"
    | (shrink) "\<not> capacity_' t \<le> 2 * size_' t" "8 * size_' t \<le> capacity_' t \<and> 1 < capacity_' t"
    | (keep) "\<not> capacity_' t \<le> 2 * size_' t" "\<not> (8 * size_' t \<le> capacity_' t \<and> 1 < capacity_' t)"
    by blast
  then show ?thesis
  proof cases
    case grow
    from rebuild_consistent[OF l, of "2 * capacity_' t"] c grow show ?thesis
      by (simp add: rebuild_if_needed_eq capacity_after_def)
  next
    case shrink
    then have "1 \<le> capacity_' t div 2" by arith
    from rebuild_consistent[OF l this] shrink show ?thesis
      by (simp add: rebuild_if_needed_eq capacity_after_def)
  next
    case keep
    with assms show ?thesis by (auto simp: rebuild_if_needed_eq capacity_after_def)
  qed
qed

lemma rebuild_if_needed_keep:
  "capacity_after (size_' t) (capacity_' t) = capacity_' t \<Longrightarrow> 1 \<le> capacity_' t \<Longrightarrow>
   rebuild_if_needed h t = Inr t"
  by (auto simp: rebuild_if_needed_eq capacity_after_def split: if_splits)

subsection \<open>\<^verbatim>\<open>get_position\<close> in a consistent table\<close>

lemma consistent_capacity: "consistent h t \<Longrightarrow> 1 \<le> capacity_' t \<and> length (hash_table_' t) = capacity_' t"
  by (simp add: consistent_def index_ok_def)

lemma consistent_bucket:
  "consistent h t \<Longrightarrow> b < capacity_' t \<Longrightarrow>
   distinct (hash_table_' t ! b) \<and>
   set (hash_table_' t ! b) = {a \<in> set (elements_' t). bucket_of h t a = b}"
  by (simp add: consistent_def index_ok_def)

lemma consistent_live: "consistent h t \<Longrightarrow> a \<in> set (elements_' t) \<Longrightarrow> cells h a \<noteq> None"
  by (simp add: consistent_def list_ok_def)

lemma consistent_key_inj:
  "consistent h t \<Longrightarrow> a \<in> set (elements_' t) \<Longrightarrow> a' \<in> set (elements_' t) \<Longrightarrow>
   key_of h a = key_of h a' \<Longrightarrow> a = a'"
  by (auto simp: consistent_def list_ok_def distinct_map dest: inj_onD)

lemma get_position_absent:
  assumes "consistent h t" "\<forall>a\<in>set (elements_' t). key_of h a \<noteq> key"
  shows "get_position h t key (hash_' t key) = Inr (hash_' t key mod capacity_' t, - 1)"
proof -
  let ?b = "hash_' t key mod capacity_' t"
  from consistent_capacity[OF assms(1)] have c: "capacity_' t \<noteq> 0" "?b < length (hash_table_' t)" "?b < capacity_' t"
    by simp_all
  from consistent_bucket[OF assms(1) c(3)] have "set (hash_table_' t ! ?b) \<subseteq> set (elements_' t)" by auto
  with assms consistent_live[OF assms(1)]
  have "\<forall>a\<in>set (hash_table_' t ! ?b). cells h a \<noteq> None \<and> key_of h a \<noteq> key" by blast
  from get_position_loop_absent[OF this] c show ?thesis by (simp add: get_position_def)
qed

lemma get_position_present:
  assumes "consistent h t" "a \<in> set (elements_' t)" "key_of h a = key"
  shows "\<exists>j. get_position h t key (hash_' t key) = Inr (hash_' t key mod capacity_' t, int j) \<and>
             j < length (hash_table_' t ! (hash_' t key mod capacity_' t)) \<and>
             hash_table_' t ! (hash_' t key mod capacity_' t) ! j = a"
proof -
  let ?b = "hash_' t key mod capacity_' t"
  let ?bucket = "hash_table_' t ! ?b"
  from consistent_capacity[OF assms(1)] have c: "capacity_' t \<noteq> 0" "?b < length (hash_table_' t)" "?b < capacity_' t"
    by simp_all
  note bk = consistent_bucket[OF assms(1) c(3)]
  from bk have sub: "set ?bucket \<subseteq> set (elements_' t)" by auto
  with consistent_live[OF assms(1)] have live: "\<forall>a\<in>set ?bucket. cells h a \<noteq> None" by blast
  from bk assms(2,3) have "a \<in> set ?bucket" by (simp add: bucket_of_def)
  with assms(3) have "\<exists>a\<in>set ?bucket. key_of h a = key" by blast
  from get_position_loop_present[OF live this, of 0] obtain j where
    j: "j < length ?bucket" "get_position_loop h ?bucket key 0 = Inr (int j)" "key_of h (?bucket ! j) = key"
    by auto
  from j(1) sub have "?bucket ! j \<in> set (elements_' t)" by (meson nth_mem subsetD)
  from consistent_key_inj[OF assms(1) this assms(2)] j(3) assms(3) have "?bucket ! j = a" by simp
  with j c show ?thesis by (simp add: get_position_def)
qed

lemma consistent_frame:
  assumes "consistent h t" "\<forall>a\<in>set (elements_' t). cells h' a = cells h a"
  shows "consistent h' t"
proof -
  from assms(2) have k: "\<And>a. a \<in> set (elements_' t) \<Longrightarrow> key_of h' a = key_of h a"
    by (simp add: key_of_def)
  then have m: "map (key_of h') (elements_' t) = map (key_of h) (elements_' t)" by simp
  from assms have "list_ok h' t" by (simp add: consistent_def list_ok_def m)
  moreover from assms(1) k have "index_ok h' t" by (auto simp: consistent_def index_ok_def bucket_of_def)
  ultimately show ?thesis by (simp add: consistent_def)
qed

lemma heap_ok_fresh: "heap_ok h \<Longrightarrow> consistent h t \<Longrightarrow> next_addr h \<notin> set (elements_' t)"
  by (auto simp: heap_ok_def dest: consistent_live)

lemma heap_ok_new_node: "heap_ok h \<Longrightarrow> heap_ok (snd (new_node h el))"
  by (simp add: heap_ok_def new_node_def)

lemma heap_ok_delete_node: "heap_ok h \<Longrightarrow> heap_ok (delete_node h a)"
  by (simp add: heap_ok_def delete_node_def)

text \<open>The table of \<^verbatim>\<open>add_element\<close> after its \<^verbatim>\<open>push_back\<close>, before the rehash check.\<close>

lemma push_back_consistent:
  assumes "heap_ok h" "consistent h t" "\<forall>a\<in>set (elements_' t). key_of h a \<noteq> fst el"
  shows "consistent (snd (new_node h el))
            (t\<lparr>elements_' := elements_' t @ [next_addr h],
               hash_table_' := (hash_table_' t)
                 [hash_' t (fst el) mod capacity_' t :=
                    hash_table_' t ! (hash_' t (fst el) mod capacity_' t) @ [next_addr h]],
               size_' := size_' t + 1\<rparr>)"
    (is "consistent ?h ?t")
proof -
  let ?a = "next_addr h"
  let ?b = "hash_' t (fst el) mod capacity_' t"
  have fresh: "?a \<notin> set (elements_' t)" by (rule heap_ok_fresh[OF assms(1,2)])
  have same: "\<forall>a\<in>set (elements_' t). cells ?h a = cells h a"
    using fresh by (auto simp: new_node_def)
  have old: "consistent ?h t" by (rule consistent_frame[OF assms(2) same])
  have k: "\<And>a. a \<in> set (elements_' t) \<Longrightarrow> key_of ?h a = key_of h a"
    using same by (simp add: key_of_def)
  have ka: "key_of ?h ?a = fst el" by (simp add: key_of_def new_node_def)
  from consistent_capacity[OF assms(2)] have c: "?b < capacity_' t" "length (hash_table_' t) = capacity_' t"
    by simp_all
  have ca: "cells ?h ?a = Some el" by (simp add: new_node_def)
  from old have lo: "list_ok ?h t" by (simp add: consistent_def)
  have "list_ok ?h ?t"
    unfolding list_ok_def
  proof (intro conjI)
    show "size_' ?t = length (elements_' ?t)" using lo by (simp add: list_ok_def)
    show "distinct (elements_' ?t)" using lo fresh by (simp add: list_ok_def)
    show "\<forall>a\<in>set (elements_' ?t). cells ?h a \<noteq> None"
      using lo ca by (simp add: list_ok_def)
    have "fst el \<notin> key_of ?h ` set (elements_' t)" using k assms(3) by force
    then show "distinct (map (key_of ?h) (elements_' ?t))"
      using lo ka by (simp add: list_ok_def)
  qed
  moreover have "index_ok ?h ?t"
    unfolding index_ok_def
  proof (intro conjI allI impI)
    show "1 \<le> capacity_' ?t" using consistent_capacity[OF assms(2)] by simp
    show "length (hash_table_' ?t) = capacity_' ?t" using c by simp
  next
    fix b assume "b < capacity_' ?t"
    then have b: "b < capacity_' t" by simp
    note bk = consistent_bucket[OF old b]
    have bo: "\<And>a. bucket_of ?h ?t a = bucket_of ?h t a" by (simp add: bucket_of_def)
    have boa: "bucket_of ?h t ?a = ?b" by (simp add: bucket_of_def ka)
    have nth: "hash_table_' ?t ! b =
        (if b = ?b then hash_table_' t ! ?b @ [?a] else hash_table_' t ! b)"
      using b c by (simp add: nth_list_update)
    have "?a \<notin> set (hash_table_' t ! b)" using bk fresh by simp
    then show "distinct (hash_table_' ?t ! b)" unfolding nth using bk by auto
    have "{a \<in> set (elements_' ?t). bucket_of ?h ?t a = b} =
        (if b = ?b then insert ?a {a \<in> set (elements_' t). bucket_of ?h t a = b}
         else {a \<in> set (elements_' t). bucket_of ?h t a = b})"
      unfolding bo using boa by auto
    then show "set (hash_table_' ?t ! b) = {a \<in> set (elements_' ?t). bucket_of ?h ?t a = b}"
      unfolding nth using bk by auto
  qed
  ultimately show ?thesis by (simp add: consistent_def)
qed

lemma add_element_absent:
  assumes "heap_ok h" "consistent h t" "\<forall>a\<in>set (elements_' t). key_of h a \<noteq> fst el"
  shows "\<exists>t'. add_element h t el = Inr (snd (new_node h el), t', hash_' t (fst el)) \<and>
           consistent (snd (new_node h el)) t' \<and>
           elements_' t' = elements_' t @ [next_addr h] \<and> size_' t' = size_' t + 1 \<and>
           capacity_' t' = capacity_after (size_' t + 1) (capacity_' t) \<and> hash_' t' = hash_' t"
proof -
  let ?t1 = "t\<lparr>elements_' := elements_' t @ [next_addr h],
               hash_table_' := (hash_table_' t)
                 [hash_' t (fst el) mod capacity_' t :=
                    hash_table_' t ! (hash_' t (fst el) mod capacity_' t) @ [next_addr h]],
               size_' := size_' t + 1\<rparr>"
  from rebuild_if_needed_consistent[OF push_back_consistent[OF assms]] obtain t' where
    t': "rebuild_if_needed (snd (new_node h el)) ?t1 = Inr t'" "consistent (snd (new_node h el)) t'"
      "capacity_' t' = capacity_after (size_' ?t1) (capacity_' ?t1)"
      "elements_' t' = elements_' ?t1" "size_' t' = size_' ?t1" "hash_' t' = hash_' ?t1"
    by blast
  have "add_element h t el = Inr (snd (new_node h el), t', hash_' t (fst el))"
    using get_position_absent[OF assms(2,3)] t'(1)
    by (simp add: add_element_def new_node_def)
  with t' show ?thesis by simp
qed

lemma add_element_present:
  assumes "consistent h t" "a \<in> set (elements_' t)" "key_of h a = fst el"
  shows "\<exists>t'. add_element h t el = Inr (h, t', hash_' t (fst el)) \<and> rebuild_if_needed h t = Inr t' \<and>
           consistent h t' \<and> elements_' t' = elements_' t \<and> size_' t' = size_' t \<and>
           capacity_' t' = capacity_after (size_' t) (capacity_' t) \<and> hash_' t' = hash_' t"
proof -
  from rebuild_if_needed_consistent[OF assms(1)] obtain t' where
    t': "rebuild_if_needed h t = Inr t'" "consistent h t'"
      "capacity_' t' = capacity_after (size_' t) (capacity_' t)"
      "elements_' t' = elements_' t" "size_' t' = size_' t" "hash_' t' = hash_' t"
    by blast
  from get_position_present[OF assms] obtain j where
    "get_position h t (fst el) (hash_' t (fst el)) = Inr (hash_' t (fst el) mod capacity_' t, int j)"
    by blast
  then have "add_element h t el = Inr (h, t', hash_' t (fst el))"
    using t'(1) by (simp add: add_element_def)
  with t' show ?thesis by simp
qed

subsection \<open>Swap with the last iterator, then pop\<close>

lemma swap_pop:
  assumes "j < length xs" "distinct xs"
  shows "last (xs[j := last xs, length xs - 1 := xs ! j]) = xs ! j"
    and "distinct (butlast (xs[j := last xs, length xs - 1 := xs ! j]))"
    and "set (butlast (xs[j := last xs, length xs - 1 := xs ! j])) = set xs - {xs ! j}"
proof -
  let ?n = "length xs - 1"
  let ?ys = "xs[j := last xs, ?n := xs ! j]"
  from assms(1) have ne: "xs \<noteq> []" and n: "?n < length xs" by auto
  have lx: "last xs = xs ! ?n" using ne by (rule last_conv_nth)
  have ys_ne: "?ys \<noteq> []" using ne by simp
  show l: "last ?ys = xs ! j" using n ys_ne by (simp add: last_conv_nth)
  have s: "set ?ys = set xs" unfolding lx using assms(1) n by (rule set_swap)
  have d: "distinct ?ys" unfolding lx distinct_swap[OF assms(1) n] by (rule assms(2))
  have split: "?ys = butlast ?ys @ [last ?ys]" using ys_ne by simp
  from d split have d': "distinct (butlast ?ys @ [last ?ys])" by simp
  then show "distinct (butlast ?ys)" by simp
  from d' have "last ?ys \<notin> set (butlast ?ys)" by simp
  moreover have "set ?ys = set (butlast ?ys) \<union> {last ?ys}" by (subst split) simp
  ultimately show "set (butlast ?ys) = set xs - {xs ! j}" using s l by auto
qed

lemma cells_delete_node: "cells (delete_node h a) x = (if x = a then None else cells h x)"
  by (simp add: delete_node_def)

lemma key_of_delete_node: "x \<noteq> a \<Longrightarrow> key_of (delete_node h a) x = key_of h x"
  by (simp add: key_of_def delete_node_def)

text \<open>The table of \<^verbatim>\<open>delete_element\<close> after its \<^verbatim>\<open>pop_back\<close>, before the rehash check.\<close>

lemma pop_back_consistent:
  assumes "consistent h t" "a \<in> set (elements_' t)" "b = bucket_of h t a"
    "set bucket' = set (hash_table_' t ! b) - {a}" "distinct bucket'"
  shows "consistent (delete_node h a)
            (t\<lparr>elements_' := remove1 a (elements_' t),
               hash_table_' := (hash_table_' t)[b := bucket'],
               size_' := size_' t - 1\<rparr>)"
    (is "consistent ?h ?t")
proof -
  from assms(1) have lo: "list_ok h t" by (simp add: consistent_def)
  then have d: "distinct (elements_' t)" by (simp add: list_ok_def)
  have els: "set (elements_' ?t) = set (elements_' t) - {a}" using d by simp
  have k: "\<And>x. x \<in> set (elements_' ?t) \<Longrightarrow> key_of ?h x = key_of h x"
    using els by (simp add: key_of_delete_node)
  from consistent_capacity[OF assms(1)] have c: "1 \<le> capacity_' t" "length (hash_table_' t) = capacity_' t"
    by simp_all
  have "list_ok ?h ?t"
    unfolding list_ok_def
  proof (intro conjI)
    show "size_' ?t = length (elements_' ?t)"
      using lo assms(2) by (simp add: list_ok_def length_remove1)
    show "distinct (elements_' ?t)" using d by simp
    show "\<forall>x\<in>set (elements_' ?t). cells ?h x \<noteq> None"
      unfolding els using lo by (simp add: list_ok_def cells_delete_node)
    have m: "map (key_of ?h) (remove1 a (elements_' t)) = map (key_of h) (remove1 a (elements_' t))"
      using k by (intro map_cong) simp_all
    have "distinct (map (key_of h) (remove1 a (elements_' t)))"
      using lo by (auto simp: list_ok_def distinct_map intro: inj_on_subset set_remove1_subset)
    then show "distinct (map (key_of ?h) (elements_' ?t))" by (simp add: m)
  qed
  moreover have "index_ok ?h ?t"
    unfolding index_ok_def
  proof (intro conjI allI impI)
    show "1 \<le> capacity_' ?t" using c by simp
    show "length (hash_table_' ?t) = capacity_' ?t" using c by simp
  next
    fix b' assume "b' < capacity_' ?t"
    then have b': "b' < capacity_' t" by simp
    note bk = consistent_bucket[OF assms(1) b']
    have nth: "hash_table_' ?t ! b' = (if b' = b then bucket' else hash_table_' t ! b')"
      using b' c by (simp add: nth_list_update)
    have bo: "\<And>x. x \<in> set (elements_' ?t) \<Longrightarrow> bucket_of ?h ?t x = bucket_of h t x"
      using k by (simp add: bucket_of_def)
    have sets: "{x \<in> set (elements_' ?t). bucket_of ?h ?t x = b'} =
        {x \<in> set (elements_' t). bucket_of h t x = b'} - {a}"
      using bo els by auto
    show "distinct (hash_table_' ?t ! b')" unfolding nth using bk assms(5) by simp
    show "set (hash_table_' ?t ! b') = {x \<in> set (elements_' ?t). bucket_of ?h ?t x = b'}"
      unfolding nth sets using bk assms(3,4) by auto
  qed
  ultimately show ?thesis by (simp add: consistent_def)
qed

lemma delete_element_present:
  assumes "consistent h t" "a \<in> set (elements_' t)" "key_of h a = key"
  shows "\<exists>t'. delete_element h t key = Inr (delete_node h a, t') \<and> consistent (delete_node h a) t' \<and>
           elements_' t' = remove1 a (elements_' t) \<and> size_' t' = size_' t - 1 \<and>
           capacity_' t' = capacity_after (size_' t - 1) (capacity_' t) \<and> hash_' t' = hash_' t"
proof -
  let ?b = "hash_' t key mod capacity_' t"
  let ?bucket = "hash_table_' t ! ?b"
  from get_position_present[OF assms] obtain j where
    j: "get_position h t key (hash_' t key) = Inr (?b, int j)" "j < length ?bucket" "?bucket ! j = a"
    by blast
  let ?swapped = "?bucket[j := last ?bucket, length ?bucket - 1 := ?bucket ! j]"
  from consistent_capacity[OF assms(1)] have "?b < capacity_' t" by simp
  from consistent_bucket[OF assms(1) this] have d: "distinct ?bucket" by simp
  note sp = swap_pop[OF j(2) d]
  have b: "?b = bucket_of h t a" using assms(3) by (simp add: bucket_of_def)
  let ?t1 = "t\<lparr>elements_' := remove1 a (elements_' t),
               hash_table_' := (hash_table_' t)[?b := butlast ?swapped],
               size_' := size_' t - 1\<rparr>"
  have "consistent (delete_node h a) ?t1"
    using sp(2,3) j(3) by (intro pop_back_consistent[OF assms(1,2) b]) simp_all
  from rebuild_if_needed_consistent[OF this] obtain t' where
    t': "rebuild_if_needed (delete_node h a) ?t1 = Inr t'" "consistent (delete_node h a) t'"
      "capacity_' t' = capacity_after (size_' ?t1) (capacity_' ?t1)"
      "elements_' t' = elements_' ?t1" "size_' t' = size_' ?t1" "hash_' t' = hash_' ?t1"
    by blast
  have "delete_element h t key = Inr (delete_node h a, t')"
    using j sp(1) assms(2) t'(1) by (simp add: delete_element_def Let_def)
  with t' show ?thesis by simp
qed

lemma delete_element_absent:
  assumes "consistent h t" "\<forall>a\<in>set (elements_' t). key_of h a \<noteq> key"
  shows "\<exists>t'. delete_element h t key = Inr (h, t') \<and> rebuild_if_needed h t = Inr t' \<and>
           consistent h t' \<and> elements_' t' = elements_' t \<and> size_' t' = size_' t \<and>
           capacity_' t' = capacity_after (size_' t) (capacity_' t) \<and> hash_' t' = hash_' t"
proof -
  from rebuild_if_needed_consistent[OF assms(1)] obtain t' where
    t': "rebuild_if_needed h t = Inr t'" "consistent h t'"
      "capacity_' t' = capacity_after (size_' t) (capacity_' t)"
      "elements_' t' = elements_' t" "size_' t' = size_' t" "hash_' t' = hash_' t"
    by blast
  have "delete_element h t key = Inr (h, t')"
    using get_position_absent[OF assms] t'(1) by (simp add: delete_element_def)
  with t' show ?thesis by simp
qed

subsection \<open>The load after the rehash check\<close>

lemma capacity_after_load:
  "s \<le> c \<Longrightarrow> 1 \<le> c \<Longrightarrow> 2 * s \<le> capacity_after s c \<and> 1 \<le> capacity_after s c"
  by (auto simp: capacity_after_def)

lemma load_ok_after:
  assumes "load_ok t" "1 \<le> capacity_' t" "size_' t' \<le> size_' t + 1"
    "capacity_' t' = capacity_after (size_' t') (capacity_' t)"
  shows "load_ok t'"
proof -
  from assms(1,2,3) have "size_' t' \<le> capacity_' t" by (auto simp: load_ok_def)
  from capacity_after_load[OF this assms(2)] assms(4) show ?thesis by (simp add: load_ok_def)
qed

subsection \<open>What an operation leaves untouched\<close>

lemma unchanged_outside_refl: "unchanged_outside A h h"
  by (simp add: unchanged_outside_def)

lemma unchanged_outside_trans:
  assumes "unchanged_outside A h h1" "unchanged_outside A1 h1 h2" "A1 \<subseteq> A \<union> {a. next_addr h \<le> a}"
  shows "unchanged_outside A h h2"
  unfolding unchanged_outside_def
proof (intro conjI allI impI)
  show "next_addr h \<le> next_addr h2" using assms(1,2) by (simp add: unchanged_outside_def)
next
  fix a assume a: "a < next_addr h" "a \<notin> A"
  with assms(3) have "a \<notin> A1" by auto
  moreover from a(1) assms(1) have "a < next_addr h1" by (simp add: unchanged_outside_def)
  ultimately have "cells h2 a = cells h1 a" using assms(2) by (simp add: unchanged_outside_def)
  also have "\<dots> = cells h a" using a assms(1) by (simp add: unchanged_outside_def)
  finally show "cells h2 a = cells h a" .
qed

lemma owned_after_trans:
  "owned_after A1 h1 t2 \<Longrightarrow> A1 \<subseteq> A \<union> {a. next_addr h \<le> a} \<Longrightarrow> next_addr h \<le> next_addr h1 \<Longrightarrow>
   owned_after A h t2"
  by (fastforce simp: owned_after_def)

lemma consistent_below: "heap_ok h \<Longrightarrow> consistent h t \<Longrightarrow> a \<in> set (elements_' t) \<Longrightarrow> a < next_addr h"
  by (metis heap_ok_def not_le consistent_live)

lemma unchanged_new_node: "unchanged_outside A h (snd (new_node h el))"
  by (simp add: unchanged_outside_def new_node_def)

lemma unchanged_delete_node: "a \<in> A \<Longrightarrow> unchanged_outside A h (delete_node h a)"
  by (auto simp: unchanged_outside_def delete_node_def)

subsection \<open>Iteration\<close>

lemma iterate_nodes_live:
  "\<forall>a\<in>set as. cells h a \<noteq> None \<Longrightarrow> iterate_nodes h as = Inr (map (\<lambda>a. the (cells h a)) as)"
  by (induction as) auto

lemma iterate_consistent: "consistent h t \<Longrightarrow> iterate h t = Inr (map (\<lambda>a. the (cells h a)) (elements_' t))"
  by (simp add: iterate_def iterate_nodes_live consistent_def list_ok_def)

lemma iterate_keys:
  assumes "consistent h t" "iterate h t = Inr els"
  shows "fst ` set els = key_of h ` set (elements_' t)"
proof -
  from assms have els: "els = map (\<lambda>a. the (cells h a)) (elements_' t)" by (simp add: iterate_consistent)
  show ?thesis unfolding els by (simp add: image_image key_of_def)
qed

lemma iterate_entry:
  assumes "consistent h t" "iterate h t = Inr els"
  shows "(k, v) \<in> set els \<longleftrightarrow> (\<exists>a\<in>set (elements_' t). cells h a = Some (k, v))"
proof -
  from assms have els: "els = map (\<lambda>a. the (cells h a)) (elements_' t)" by (simp add: iterate_consistent)
  show ?thesis
  proof
    assume "(k, v) \<in> set els"
    then obtain a where "a \<in> set (elements_' t)" "the (cells h a) = (k, v)" unfolding els by auto
    with consistent_live[OF assms(1) this(1)] show "\<exists>a\<in>set (elements_' t). cells h a = Some (k, v)" by auto
  next
    assume "\<exists>a\<in>set (elements_' t). cells h a = Some (k, v)"
    then show "(k, v) \<in> set els" unfolding els by force
  qed
qed

subsection \<open>\<^verbatim>\<open>add_element\<close> and \<^verbatim>\<open>delete_element\<close> keep a table in order\<close>

lemma add_element_ok:
  assumes "heap_ok h" "table_ok h t"
  shows "\<exists>h' t'. add_element h t el = Inr (h', t', hash_' t (fst el)) \<and>
           heap_ok h' \<and> table_ok h' t' \<and> unchanged_outside (set (elements_' t)) h h' \<and>
           owned_after (set (elements_' t)) h t' \<and> hash_' t' = hash_' t"
proof (cases "\<exists>a\<in>set (elements_' t). key_of h a = fst el")
  case True
  then obtain a where a: "a \<in> set (elements_' t)" "key_of h a = fst el" by blast
  from assms(2) have w: "consistent h t" and l: "load_ok t" by (simp_all add: table_ok_def)
  from add_element_present[OF w a] obtain t' where
    t': "add_element h t el = Inr (h, t', hash_' t (fst el))" "consistent h t'" "elements_' t' = elements_' t"
      "size_' t' = size_' t" "capacity_' t' = capacity_after (size_' t) (capacity_' t)" "hash_' t' = hash_' t"
    by blast
  have "load_ok t'" using consistent_capacity[OF w] t'(4,5) by (intro load_ok_after[OF l]) simp_all
  with t' assms(1) show ?thesis
    by (simp add: table_ok_def unchanged_outside_refl owned_after_def)
next
  case False
  then have abs: "\<forall>a\<in>set (elements_' t). key_of h a \<noteq> fst el" by blast
  from assms(2) have w: "consistent h t" and l: "load_ok t" by (simp_all add: table_ok_def)
  from add_element_absent[OF assms(1) w abs] obtain t' where
    t': "add_element h t el = Inr (snd (new_node h el), t', hash_' t (fst el))"
      "consistent (snd (new_node h el)) t'" "elements_' t' = elements_' t @ [next_addr h]"
      "size_' t' = size_' t + 1" "capacity_' t' = capacity_after (size_' t + 1) (capacity_' t)"
      "hash_' t' = hash_' t"
    by blast
  have "load_ok t'" using consistent_capacity[OF w] t'(4,5) by (intro load_ok_after[OF l]) simp_all
  with t' assms(1) show ?thesis
    by (simp add: table_ok_def unchanged_new_node heap_ok_new_node owned_after_def)
qed

lemma delete_element_ok:
  assumes "heap_ok h" "table_ok h t"
  shows "\<exists>h' t'. delete_element h t key = Inr (h', t') \<and>
           heap_ok h' \<and> table_ok h' t' \<and> unchanged_outside (set (elements_' t)) h h' \<and>
           owned_after (set (elements_' t)) h t' \<and> hash_' t' = hash_' t"
proof (cases "\<exists>a\<in>set (elements_' t). key_of h a = key")
  case True
  then obtain a where a: "a \<in> set (elements_' t)" "key_of h a = key" by blast
  from assms(2) have w: "consistent h t" and l: "load_ok t" by (simp_all add: table_ok_def)
  from delete_element_present[OF w a] obtain t' where
    t': "delete_element h t key = Inr (delete_node h a, t')" "consistent (delete_node h a) t'"
      "elements_' t' = remove1 a (elements_' t)" "size_' t' = size_' t - 1"
      "capacity_' t' = capacity_after (size_' t - 1) (capacity_' t)" "hash_' t' = hash_' t"
    by blast
  have "load_ok t'" using consistent_capacity[OF w] t'(4,5) by (intro load_ok_after[OF l]) simp_all
  moreover have "set (remove1 a (elements_' t)) \<subseteq> set (elements_' t)" by (rule set_remove1_subset)
  ultimately show ?thesis using t' assms(1) a(1)
    by (auto simp: table_ok_def unchanged_delete_node heap_ok_delete_node owned_after_def)
next
  case False
  then have abs: "\<forall>a\<in>set (elements_' t). key_of h a \<noteq> key" by blast
  from assms(2) have w: "consistent h t" and l: "load_ok t" by (simp_all add: table_ok_def)
  from delete_element_absent[OF w abs] obtain t' where
    t': "delete_element h t key = Inr (h, t')" "consistent h t'" "elements_' t' = elements_' t"
      "size_' t' = size_' t" "capacity_' t' = capacity_after (size_' t) (capacity_' t)" "hash_' t' = hash_' t"
    by blast
  have "load_ok t'" using consistent_capacity[OF w] t'(4,5) by (intro load_ok_after[OF l]) simp_all
  with t' assms(1) show ?thesis
    by (simp add: table_ok_def unchanged_outside_refl owned_after_def)
qed

subsection \<open>Deleting and copying a list\<close>

lemma list_delete_cells:
  "cells (list_delete h as) x = (if x \<in> set as then None else cells h x)"
  unfolding list_delete_def
  by (induction as arbitrary: h) (simp_all add: delete_node_def)

lemma list_delete_next: "next_addr (list_delete h as) = next_addr h"
  unfolding list_delete_def
  by (induction as arbitrary: h) (simp_all add: delete_node_def)

lemma heap_ok_list_delete: "heap_ok h \<Longrightarrow> heap_ok (list_delete h as)"
  by (simp add: heap_ok_def list_delete_cells list_delete_next)

lemma unchanged_list_delete: "set as \<subseteq> A \<Longrightarrow> unchanged_outside A h (list_delete h as)"
  by (auto simp: unchanged_outside_def list_delete_cells list_delete_next)

lemma list_copy_ok:
  assumes "heap_ok h" "\<forall>a\<in>set as. cells h a \<noteq> None"
  shows "\<exists>h'. list_copy h as = Inr (h', [next_addr h..<next_addr h + length as]) \<and>
           heap_ok h' \<and> next_addr h' = next_addr h + length as \<and>
           (\<forall>a. a < next_addr h \<longrightarrow> cells h' a = cells h a) \<and>
           map (cells h') [next_addr h..<next_addr h + length as] = map (cells h) as"
  using assms
proof (induction as arbitrary: h)
  case Nil
  then show ?case by simp
next
  case (Cons a as)
  from Cons.prems(2) obtain el where el: "cells h a = Some el" by auto
  let ?h1 = "snd (new_node h el)"
  have n1: "next_addr ?h1 = Suc (next_addr h)" by (simp add: new_node_def)
  have c1: "\<And>x. x \<noteq> next_addr h \<Longrightarrow> cells ?h1 x = cells h x" by (simp add: new_node_def)
  have c1a: "cells ?h1 (next_addr h) = Some el" by (simp add: new_node_def)
  have below: "\<forall>x\<in>set (a # as). x < next_addr h"
    using Cons.prems by (metis heap_ok_def not_le)
  then have live1: "\<forall>x\<in>set as. cells ?h1 x \<noteq> None" using Cons.prems(2) c1 by auto
  from Cons.IH[OF heap_ok_new_node[OF Cons.prems(1)] live1] obtain h' where
    h': "list_copy ?h1 as = Inr (h', [next_addr ?h1..<next_addr ?h1 + length as])"
      "heap_ok h'" "next_addr h' = next_addr ?h1 + length as"
      "\<forall>x. x < next_addr ?h1 \<longrightarrow> cells h' x = cells ?h1 x"
      "map (cells h') [next_addr ?h1..<next_addr ?h1 + length as] = map (cells ?h1) as"
    by blast
  have upt: "[next_addr h..<next_addr h + length (a # as)] =
      next_addr h # [Suc (next_addr h)..<Suc (next_addr h) + length as]"
    by (simp add: upt_rec)
  have "list_copy h (a # as) = Inr (h', [next_addr h..<next_addr h + length (a # as)])"
    unfolding upt using el h'(1) by (simp add: n1 new_node_def)
  moreover have "next_addr h' = next_addr h + length (a # as)" using h'(3) n1 by simp
  moreover have "\<forall>x. x < next_addr h \<longrightarrow> cells h' x = cells h x"
    using h'(4) n1 c1 by auto
  moreover have "map (cells h') [next_addr h..<next_addr h + length (a # as)] = map (cells h) (a # as)"
  proof -
    have "cells h' (next_addr h) = Some el" using h'(4) n1 c1a by simp
    moreover have "map (cells ?h1) as = map (cells h) as" using below c1 by auto
    ultimately show ?thesis unfolding upt using h'(5) el by (simp add: n1)
  qed
  ultimately show ?case using h'(2) by blast
qed

lemma list_ok_cong:
  assumes "list_ok h t" "size_' t' = size_' t" "length (elements_' t') = length (elements_' t)"
    "distinct (elements_' t')" "map (cells h') (elements_' t') = map (cells h) (elements_' t)"
  shows "list_ok h' t'"
proof -
  have k: "map (key_of h') (elements_' t') = map (key_of h) (elements_' t)"
  proof -
    have "map (key_of h') (elements_' t') = map (\<lambda>c. fst (the c)) (map (cells h') (elements_' t'))"
      by (simp add: key_of_def comp_def)
    also have "\<dots> = map (\<lambda>c. fst (the c)) (map (cells h) (elements_' t))" by (simp only: assms(5))
    also have "\<dots> = map (key_of h) (elements_' t)" by (simp add: key_of_def comp_def)
    finally show ?thesis .
  qed
  have "set (map (cells h') (elements_' t')) = set (map (cells h) (elements_' t))"
    by (simp only: assms(5))
  then have "cells h' ` set (elements_' t') = cells h ` set (elements_' t)" by simp
  moreover have "None \<notin> cells h ` set (elements_' t)" using assms(1) by (auto simp: list_ok_def)
  ultimately have "\<forall>a\<in>set (elements_' t'). cells h' a \<noteq> None" by (metis imageI)
  with assms k show ?thesis by (simp add: list_ok_def)
qed

lemma iterate_cong:
  assumes "\<forall>a\<in>set (elements_' t). cells h a \<noteq> None"
    "map (cells h') (elements_' t') = map (cells h) (elements_' t)"
  shows "iterate h' t' = iterate h t"
proof -
  have "set (map (cells h') (elements_' t')) = set (map (cells h) (elements_' t))"
    by (simp only: assms(2))
  then have "cells h' ` set (elements_' t') = cells h ` set (elements_' t)" by simp
  moreover have "None \<notin> cells h ` set (elements_' t)" using assms(1) by auto
  ultimately have l: "\<forall>a\<in>set (elements_' t'). cells h' a \<noteq> None" by (metis imageI)
  have "map (\<lambda>a. the (cells h' a)) (elements_' t') = map the (map (cells h') (elements_' t'))"
    by (simp add: comp_def)
  also have "\<dots> = map the (map (cells h) (elements_' t))" by (simp only: assms(2))
  also have "\<dots> = map (\<lambda>a. the (cells h a)) (elements_' t)" by (simp add: comp_def)
  finally show ?thesis using assms(1) l by (simp add: iterate_def iterate_nodes_live)
qed

subsection \<open>Constructors, \<^verbatim>\<open>clear\<close> and copies\<close>

lemma table_ok_HashMap_ctor: "table_ok h (HashMap_ctor hash)"
  by (simp add: table_ok_def consistent_def list_ok_def index_ok_def load_ok_def HashMap_ctor_def
      kDefaultCapacity_def)

lemma add_elements_ok:
  assumes "heap_ok h" "table_ok h t"
  shows "\<exists>h' t'. add_elements h t els = Inr (h', t') \<and> heap_ok h' \<and> table_ok h' t' \<and>
           unchanged_outside (set (elements_' t)) h h' \<and> owned_after (set (elements_' t)) h t'"
  using assms
proof (induction els arbitrary: h t)
  case Nil
  then show ?case by (simp add: unchanged_outside_refl owned_after_def)
next
  case (Cons el els)
  from add_element_ok[OF Cons.prems, of el] obtain h1 t1 where
    1: "add_element h t el = Inr (h1, t1, hash_' t (fst el))" "heap_ok h1" "table_ok h1 t1"
      "unchanged_outside (set (elements_' t)) h h1" "owned_after (set (elements_' t)) h t1"
    by blast
  from Cons.IH[OF 1(2,3)] obtain h2 t2 where
    2: "add_elements h1 t1 els = Inr (h2, t2)" "heap_ok h2" "table_ok h2 t2"
      "unchanged_outside (set (elements_' t1)) h1 h2" "owned_after (set (elements_' t1)) h1 t2"
    by blast
  have sub: "set (elements_' t1) \<subseteq> set (elements_' t) \<union> {a. next_addr h \<le> a}"
    using 1(5) by (simp add: owned_after_def)
  have "unchanged_outside (set (elements_' t)) h h2"
    by (rule unchanged_outside_trans[OF 1(4) 2(4) sub])
  moreover have "owned_after (set (elements_' t)) h t2"
    using 1(4) by (intro owned_after_trans[OF 2(5) sub]) (simp add: unchanged_outside_def)
  ultimately show ?case using 1(1) 2(1,2,3) by simp
qed

lemma HashMap_range_ok:
  assumes "heap_ok h"
  shows "\<exists>h' t'. HashMap_range h els hash = Inr (h', t') \<and> heap_ok h' \<and> table_ok h' t' \<and>
           unchanged_outside {} h h' \<and> owned_after {} h t'"
proof -
  have eq: "HashMap_range h els hash = add_elements h (HashMap_ctor hash) els"
    by (simp add: HashMap_range_def HashMap_ctor_def)
  from add_elements_ok[OF assms table_ok_HashMap_ctor, of hash els] show ?thesis
    unfolding eq by (simp add: HashMap_ctor_def)
qed

lemma clear_ok:
  assumes "heap_ok h" "clear h t = (h', t')"
  shows "heap_ok h' \<and> table_ok h' t' \<and> unchanged_outside (set (elements_' t)) h h' \<and>
         owned_after (set (elements_' t)) h t'"
  using assms
  by (auto simp: clear_def heap_ok_list_delete unchanged_list_delete owned_after_def table_ok_def
      consistent_def list_ok_def index_ok_def load_ok_def kDefaultCapacity_def)

lemma HashMap_copy_ok:
  assumes "heap_ok h" "table_ok h other"
  shows "\<exists>h' t'. HashMap_copy h other = Inr (h', t') \<and> heap_ok h' \<and> table_ok h' t' \<and>
           unchanged_outside {} h h' \<and> owned_after {} h t' \<and>
           iterate h' t' = iterate h other \<and> capacity_' t' = capacity_' other \<and>
           size_' t' = size_' other \<and> hash_' t' = hash_' other"
proof -
  from assms(2) have w: "consistent h other" and l: "load_ok other" by (simp_all add: table_ok_def)
  then have lo: "list_ok h other" by (simp add: consistent_def)
  from w have live: "\<forall>a\<in>set (elements_' other). cells h a \<noteq> None" by (simp add: consistent_def list_ok_def)
  from list_copy_ok[OF assms(1) live] obtain h1 where
    h1: "list_copy h (elements_' other) = Inr (h1, [next_addr h..<next_addr h + length (elements_' other)])"
      "heap_ok h1" "next_addr h1 = next_addr h + length (elements_' other)"
      "\<forall>a. a < next_addr h \<longrightarrow> cells h1 a = cells h a"
      "map (cells h1) [next_addr h..<next_addr h + length (elements_' other)] = map (cells h) (elements_' other)"
    by blast
  let ?bs = "[next_addr h..<next_addr h + length (elements_' other)]"
  let ?t0 = "\<lparr>capacity_' = kDefaultCapacity, size_' = size_' other, hash_' = hash_' other,
              hash_table_' = [], elements_' = ?bs\<rparr>"
  have "list_ok h1 ?t0" using h1(5) by (intro list_ok_cong[OF lo]) simp_all
  from rebuild_consistent[OF this, of "capacity_' other"] consistent_capacity[OF w] obtain t' where
    t': "rebuild h1 ?t0 (capacity_' other) = Inr t'" "consistent h1 t'" "capacity_' t' = capacity_' other"
      "elements_' t' = ?bs" "size_' t' = size_' other" "hash_' t' = hash_' other"
    by auto
  have "HashMap_copy h other = Inr (h1, t')" using h1(1) t'(1) by (simp add: HashMap_copy_def)
  moreover have "load_ok t'" using l t'(3,5) by (simp add: load_ok_def)
  moreover have "unchanged_outside {} h h1" using h1(3,4) by (simp add: unchanged_outside_def)
  moreover have "owned_after {} h t'" using t'(4) by (auto simp: owned_after_def)
  moreover have "iterate h1 t' = iterate h other" using h1(5) t'(4) by (intro iterate_cong[OF live]) simp
  ultimately show ?thesis using h1(2) t' by (simp add: table_ok_def)
qed

lemma copy_assign_ok:
  assumes "heap_ok h" "table_ok h t" "table_ok h other"
  shows "\<exists>h' t'. copy_assign h t other = Inr (h', t') \<and> heap_ok h' \<and> table_ok h' t' \<and>
           unchanged_outside (set (elements_' t)) h h' \<and> owned_after (set (elements_' t)) h t' \<and>
           set (elements_' t') \<subseteq> {a. next_addr h \<le> a} \<and>
           iterate h' t' = iterate h other \<and> capacity_' t' = capacity_' other \<and>
           size_' t' = size_' other \<and> hash_' t' = hash_' other"
proof -
  from assms(3) have w: "consistent h other" and l: "load_ok other" by (simp_all add: table_ok_def)
  then have lo: "list_ok h other" by (simp add: consistent_def)
  from assms(2) have wt: "consistent h t" by (simp add: table_ok_def)
  from w have live: "\<forall>a\<in>set (elements_' other). cells h a \<noteq> None" by (simp add: consistent_def list_ok_def)
  from list_copy_ok[OF assms(1) live] obtain h1 where
    h1: "list_copy h (elements_' other) = Inr (h1, [next_addr h..<next_addr h + length (elements_' other)])"
      "heap_ok h1" "next_addr h1 = next_addr h + length (elements_' other)"
      "\<forall>a. a < next_addr h \<longrightarrow> cells h1 a = cells h a"
      "map (cells h1) [next_addr h..<next_addr h + length (elements_' other)] = map (cells h) (elements_' other)"
    by blast
  let ?bs = "[next_addr h..<next_addr h + length (elements_' other)]"
  let ?h2 = "list_delete h1 (elements_' t)"
  let ?t0 = "t\<lparr>hash_' := hash_' other, elements_' := ?bs, size_' := size_' other\<rparr>"
  have old: "\<forall>a\<in>set (elements_' t). a < next_addr h" using consistent_below[OF assms(1) wt] by blast
  then have "\<forall>b\<in>set ?bs. cells ?h2 b = cells h1 b" by (auto simp: list_delete_cells)
  then have m: "map (cells ?h2) ?bs = map (cells h1) ?bs" by (intro map_cong) simp_all
  have "list_ok ?h2 ?t0" using h1(5) m by (intro list_ok_cong[OF lo]) simp_all
  from rebuild_consistent[OF this, of "capacity_' other"] consistent_capacity[OF w] obtain t' where
    t': "rebuild ?h2 ?t0 (capacity_' other) = Inr t'" "consistent ?h2 t'" "capacity_' t' = capacity_' other"
      "elements_' t' = ?bs" "size_' t' = size_' other" "hash_' t' = hash_' other"
    by auto
  have "copy_assign h t other = Inr (?h2, t')" using h1(1) t'(1) by (simp add: copy_assign_def)
  moreover have "load_ok t'" using l t'(3,5) by (simp add: load_ok_def)
  moreover have "unchanged_outside (set (elements_' t)) h ?h2"
    using h1(3,4) by (simp add: unchanged_outside_def list_delete_cells list_delete_next)
  moreover have own: "set (elements_' t') \<subseteq> {a. next_addr h \<le> a}" using t'(4) by auto
  moreover from own have "owned_after (set (elements_' t)) h t'" by (auto simp: owned_after_def)
  moreover have "iterate ?h2 t' = iterate h other"
    using h1(5) m t'(4) by (intro iterate_cong[OF live]) simp
  ultimately show ?thesis using heap_ok_list_delete[OF h1(2)] t' by (simp add: table_ok_def)
qed

subsection \<open>One step of a world\<close>

lemma table_ok_frame:
  "table_ok h u \<Longrightarrow> \<forall>a\<in>set (elements_' u). cells h' a = cells h a \<Longrightarrow> table_ok h' u"
  by (auto simp: table_ok_def intro: consistent_frame)

text \<open>One table changes (or comes to be), the tables in \<open>gone\<close> go.\<close>

lemma world_ok_step:
  assumes ok: "world_ok w"
    and A: "\<forall>y u. tables w y = Some u \<longrightarrow> y \<noteq> x \<longrightarrow> y \<notin> gone \<longrightarrow> set (elements_' u) \<inter> A = {}"
    and h': "heap_ok h'" and t': "table_ok h' t'"
    and un: "unchanged_outside A (store w) h'" and own: "owned_after A (store w) t'"
  shows "world_ok \<lparr>store = h', tables = (\<lambda>y. if y = x then Some t' else if y \<in> gone then None else tables w y)\<rparr>"
    (is "world_ok ?w")
proof -
  have other: "table_ok h' u \<and> set (elements_' t') \<inter> set (elements_' u) = {}"
    if u: "tables w y = Some u" "y \<noteq> x" "y \<notin> gone" for y u
  proof -
    from ok u(1) have tu: "table_ok (store w) u" by (simp add: world_ok_def)
    from ok have hk: "heap_ok (store w)" by (simp add: world_ok_def)
    from tu have below: "\<forall>a\<in>set (elements_' u). a < next_addr (store w)"
      using consistent_below[OF hk] by (auto simp: table_ok_def)
    from A u have dis: "set (elements_' u) \<inter> A = {}" by blast
    have "\<forall>a\<in>set (elements_' u). cells h' a = cells (store w) a"
      using below dis un by (auto simp: unchanged_outside_def)
    from table_ok_frame[OF tu this] have "table_ok h' u" .
    moreover have "set (elements_' t') \<inter> set (elements_' u) = {}"
      using own below dis by (fastforce simp: owned_after_def)
    ultimately show ?thesis by simp
  qed
  have "\<forall>y u. tables ?w y = Some u \<longrightarrow> table_ok (store ?w) u"
    using other t' by (auto split: if_splits)
  moreover have "\<forall>y z u v. tables ?w y = Some u \<longrightarrow> tables ?w z = Some v \<longrightarrow> y \<noteq> z \<longrightarrow>
      set (elements_' u) \<inter> set (elements_' v) = {}"
  proof (intro allI impI)
    fix y z u v
    assume yz: "tables ?w y = Some u" "tables ?w z = Some v" "y \<noteq> z"
    consider (y) "y = x" "z \<noteq> x" | (z) "z = x" "y \<noteq> x" | (n) "y \<noteq> x" "z \<noteq> x" using yz(3) by blast
    then show "set (elements_' u) \<inter> set (elements_' v) = {}"
    proof cases
      case y
      with yz have "u = t'" "tables w z = Some v" "z \<notin> gone" by (auto split: if_splits)
      with other[of z v] y show ?thesis by simp
    next
      case z
      with yz have "v = t'" "tables w y = Some u" "y \<notin> gone" by (auto split: if_splits)
      with other[of y u] z show ?thesis by blast
    next
      case n
      with yz have "tables w y = Some u" "tables w z = Some v" by (auto split: if_splits)
      with ok yz(3) show ?thesis unfolding world_ok_def by blast
    qed
  qed
  ultimately show ?thesis using h' by (simp add: world_ok_def)
qed

lemma world_ok_update:
  assumes "world_ok w" "tables w x = Some t" "heap_ok h'" "table_ok h' t'"
    "unchanged_outside (set (elements_' t)) (store w) h'" "owned_after (set (elements_' t)) (store w) t'"
  shows "world_ok \<lparr>store = h', tables = (tables w)(x \<mapsto> t')\<rparr>"
proof -
  have A: "\<forall>y u. tables w y = Some u \<longrightarrow> y \<noteq> x \<longrightarrow> y \<notin> {} \<longrightarrow> set (elements_' u) \<inter> set (elements_' t) = {}"
    using assms(1,2) unfolding world_ok_def by blast
  have "(tables w)(x \<mapsto> t') = (\<lambda>y. if y = x then Some t' else if y \<in> {} then None else tables w y)"
    by auto
  with world_ok_step[OF assms(1) A assms(3,4,5,6)] show ?thesis by simp
qed

lemma world_ok_new:
  assumes "world_ok w" "heap_ok h'" "table_ok h' t'"
    "unchanged_outside {} (store w) h'" "owned_after {} (store w) t'"
  shows "world_ok \<lparr>store = h', tables = (tables w)(x \<mapsto> t')\<rparr>"
proof -
  have A: "\<forall>y u. tables w y = Some u \<longrightarrow> y \<noteq> x \<longrightarrow> y \<notin> {} \<longrightarrow> set (elements_' u) \<inter> {} = {}"
    by simp
  have "(tables w)(x \<mapsto> t') = (\<lambda>y. if y = x then Some t' else if y \<in> {} then None else tables w y)"
    by auto
  with world_ok_step[OF assms(1) A assms(2,3,4,5)] show ?thesis by simp
qed

subsection \<open>Lookups and \<^verbatim>\<open>operator[]\<close>\<close>

lemma insert_op_ok:
  assumes "heap_ok h" "table_ok h t"
  shows "\<exists>h' t'. insert_op h t el = Inr (h', t') \<and>
           heap_ok h' \<and> table_ok h' t' \<and> unchanged_outside (set (elements_' t)) h h' \<and>
           owned_after (set (elements_' t)) h t'"
  using add_element_ok[OF assms, of el] by (auto simp: insert_op_def)

lemma find_op_present:
  assumes "consistent h t" "a \<in> set (elements_' t)" "key_of h a = key"
  shows "find_op h t key = Inr (Some a)"
proof -
  from get_position_present[OF assms] obtain j where
    "get_position h t key (hash_' t key) = Inr (hash_' t key mod capacity_' t, int j)"
    "j < length (hash_table_' t ! (hash_' t key mod capacity_' t))"
    "hash_table_' t ! (hash_' t key mod capacity_' t) ! j = a"
    by blast
  then show ?thesis by (simp add: find_op_def)
qed

lemma find_op_absent:
  assumes "consistent h t" "\<forall>a\<in>set (elements_' t). key_of h a \<noteq> key"
  shows "find_op h t key = Inr None"
  using get_position_absent[OF assms] by (simp add: find_op_def end_iterator_def)

lemma at_op_present:
  assumes "consistent h t" "a \<in> set (elements_' t)" "key_of h a = key"
  shows "at_op h t key = Inr a"
  using find_op_present[OF assms] consistent_live[OF assms(1,2)]
  by (auto simp: at_op_def end_iterator_def)

lemma at_op_absent:
  assumes "consistent h t" "\<forall>a\<in>set (elements_' t). key_of h a \<noteq> key"
  shows "at_op h t key = Inl out_of_range"
  using find_op_absent[OF assms] by (simp add: at_op_def end_iterator_def)

lemma subscript_found:
  assumes "add_element h t (key, dflt) = Inr (h1, t1, hash_' t key)" "hash_' t1 = hash_' t"
    "consistent h1 t1" "a \<in> set (elements_' t1)" "key_of h1 a = key"
  shows "subscript dflt h t key = Inr (h1, t1, a)"
proof -
  from get_position_present[OF assms(3,4,5)] obtain j where
    "get_position h1 t1 key (hash_' t1 key) = Inr (hash_' t1 key mod capacity_' t1, int j)"
    "j < length (hash_table_' t1 ! (hash_' t1 key mod capacity_' t1))"
    "hash_table_' t1 ! (hash_' t1 key mod capacity_' t1) ! j = a"
    by blast
  with assms(1,2) consistent_live[OF assms(3,4)] show ?thesis
    by (auto simp: subscript_def)
qed

lemma subscript_present:
  assumes "consistent h t" "a \<in> set (elements_' t)" "key_of h a = key"
  shows "\<exists>t'. subscript dflt h t key = Inr (h, t', a) \<and> rebuild_if_needed h t = Inr t' \<and>
           consistent h t' \<and> elements_' t' = elements_' t \<and> size_' t' = size_' t \<and>
           capacity_' t' = capacity_after (size_' t) (capacity_' t) \<and> hash_' t' = hash_' t"
proof -
  from add_element_present[OF assms(1,2), of "(key, dflt)"] assms(3) obtain t' where
    t': "add_element h t (key, dflt) = Inr (h, t', hash_' t key)" "rebuild_if_needed h t = Inr t'"
      "consistent h t'" "elements_' t' = elements_' t" "size_' t' = size_' t"
      "capacity_' t' = capacity_after (size_' t) (capacity_' t)" "hash_' t' = hash_' t"
    by auto
  from assms(2) t'(4) have "a \<in> set (elements_' t')" by simp
  from subscript_found[OF t'(1) t'(7) t'(3) this assms(3)] t' show ?thesis by simp
qed

lemma subscript_absent:
  assumes "heap_ok h" "consistent h t" "\<forall>a\<in>set (elements_' t). key_of h a \<noteq> key"
  shows "\<exists>t'. subscript dflt h t key = Inr (snd (new_node h (key, dflt)), t', next_addr h) \<and>
           consistent (snd (new_node h (key, dflt))) t' \<and>
           elements_' t' = elements_' t @ [next_addr h] \<and> size_' t' = size_' t + 1 \<and>
           capacity_' t' = capacity_after (size_' t + 1) (capacity_' t) \<and> hash_' t' = hash_' t"
proof -
  let ?h1 = "snd (new_node h (key, dflt))"
  from add_element_absent[OF assms(1,2), of "(key, dflt)"] assms(3) obtain t' where
    t': "add_element h t (key, dflt) = Inr (?h1, t', hash_' t key)" "consistent ?h1 t'"
      "elements_' t' = elements_' t @ [next_addr h]" "size_' t' = size_' t + 1"
      "capacity_' t' = capacity_after (size_' t + 1) (capacity_' t)" "hash_' t' = hash_' t"
    by auto
  have a: "next_addr h \<in> set (elements_' t')" using t'(3) by simp
  have k: "key_of ?h1 (next_addr h) = key" by (simp add: key_of_def new_node_def)
  from subscript_found[OF t'(1) t'(6) t'(2) a k] t' show ?thesis by simp
qed

lemma subscript_ok:
  assumes "heap_ok h" "table_ok h t"
  shows "\<exists>h' t' r. subscript dflt h t key = Inr (h', t', r) \<and>
           heap_ok h' \<and> table_ok h' t' \<and> unchanged_outside (set (elements_' t)) h h' \<and>
           owned_after (set (elements_' t)) h t'"
proof (cases "\<exists>a\<in>set (elements_' t). key_of h a = key")
  case True
  then obtain a where a: "a \<in> set (elements_' t)" "key_of h a = key" by blast
  from assms(2) have w: "consistent h t" and l: "load_ok t" by (simp_all add: table_ok_def)
  from subscript_present[OF w a, of dflt] obtain t' where
    t': "subscript dflt h t key = Inr (h, t', a)" "consistent h t'" "elements_' t' = elements_' t"
      "size_' t' = size_' t" "capacity_' t' = capacity_after (size_' t) (capacity_' t)"
    by blast
  have "load_ok t'" using consistent_capacity[OF w] t'(4,5) by (intro load_ok_after[OF l]) simp_all
  with t' assms(1) show ?thesis
    by (simp add: table_ok_def unchanged_outside_refl owned_after_def)
next
  case False
  then have abs: "\<forall>a\<in>set (elements_' t). key_of h a \<noteq> key" by blast
  from assms(2) have w: "consistent h t" and l: "load_ok t" by (simp_all add: table_ok_def)
  from subscript_absent[OF assms(1) w abs, of dflt] obtain t' where
    t': "subscript dflt h t key = Inr (snd (new_node h (key, dflt)), t', next_addr h)"
      "consistent (snd (new_node h (key, dflt))) t'" "elements_' t' = elements_' t @ [next_addr h]"
      "size_' t' = size_' t + 1" "capacity_' t' = capacity_after (size_' t + 1) (capacity_' t)"
    by blast
  have "load_ok t'" using consistent_capacity[OF w] t'(4,5) by (intro load_ok_after[OF l]) simp_all
  with t' assms(1) show ?thesis
    by (simp add: table_ok_def unchanged_new_node heap_ok_new_node owned_after_def)
qed

lemma write_value_ok:
  assumes "heap_ok h" "table_ok h t" "r \<in> set (elements_' t)"
  shows "\<exists>h'. write_value h r v = Inr h' \<and> heap_ok h' \<and> table_ok h' t \<and>
           unchanged_outside (set (elements_' t)) h h' \<and>
           cells h' r = Some (key_of h r, v) \<and> (\<forall>a. a \<noteq> r \<longrightarrow> cells h' a = cells h a)"
proof -
  from assms(2) have w: "consistent h t" and l: "load_ok t" by (simp_all add: table_ok_def)
  from consistent_live[OF w assms(3)] obtain el where el: "cells h r = Some el" by auto
  let ?h = "h\<lparr>cells := (cells h)(r \<mapsto> (fst el, v))\<rparr>"
  have wv: "write_value h r v = Inr ?h" using el by (simp add: write_value_def)
  have k: "key_of ?h = key_of h" using el by (auto simp: key_of_def fun_eq_iff)
  have "list_ok ?h t" using w k by (auto simp: consistent_def list_ok_def)
  moreover have "index_ok ?h t" using w k by (simp add: consistent_def index_ok_def bucket_of_def)
  moreover have "heap_ok ?h" using assms(1) el by (auto simp: heap_ok_def)
  moreover have "unchanged_outside (set (elements_' t)) h ?h"
    using assms(3) by (auto simp: unchanged_outside_def)
  ultimately show ?thesis using wv l el by (simp add: table_ok_def consistent_def key_of_def)
qed

lemma HashMap_move_eq: "fst (HashMap_move other) = other"
  by (simp add: HashMap_move_def)

lemma move_assign_eq:
  "move_assign h t other = (list_delete h (elements_' t), other, other\<lparr>elements_' := [], hash_table_' := []\<rparr>)"
  by (simp add: move_assign_def)

subsection \<open>Every reachable world is in order\<close>

lemma world_ok_empty: "world_ok empty_world"
  by (simp add: world_ok_def empty_world_def heap_ok_def empty_heap_def)

lemma world_ok_table: "world_ok w \<Longrightarrow> tables w x = Some t \<Longrightarrow> table_ok (store w) t"
  by (simp add: world_ok_def)

lemma world_ok_heap: "world_ok w \<Longrightarrow> heap_ok (store w)"
  by (simp add: world_ok_def)

lemma world_ok_disjoint:
  "world_ok w \<Longrightarrow> tables w x = Some t \<Longrightarrow> tables w y = Some u \<Longrightarrow> x \<noteq> y \<Longrightarrow>
   set (elements_' t) \<inter> set (elements_' u) = {}"
  unfolding world_ok_def by blast

lemma world_ok_move:
  assumes "world_ok w" "tables w y = Some other" "x \<noteq> y"
    "set as \<inter> set (elements_' other) = {}"
    "\<forall>z u. tables w z = Some u \<longrightarrow> z \<noteq> x \<longrightarrow> set (elements_' u) \<inter> set as = {}"
  shows "world_ok \<lparr>store = list_delete (store w) as, tables = (tables w)(y := None, x \<mapsto> other)\<rparr>"
proof -
  let ?A = "set as \<union> set (elements_' other)"
  have A: "\<forall>z u. tables w z = Some u \<longrightarrow> z \<noteq> x \<longrightarrow> z \<notin> {y} \<longrightarrow> set (elements_' u) \<inter> ?A = {}"
    using assms(5) world_ok_disjoint[OF assms(1) _ assms(2)] by (auto simp: Int_Un_distrib)
  have same: "\<forall>a\<in>set (elements_' other). cells (list_delete (store w) as) a = cells (store w) a"
    using assms(4) by (auto simp: list_delete_cells)
  have t: "table_ok (list_delete (store w) as) other"
    by (rule table_ok_frame[OF world_ok_table[OF assms(1,2)] same])
  have un: "unchanged_outside ?A (store w) (list_delete (store w) as)"
    by (rule unchanged_list_delete) simp
  have own: "owned_after ?A (store w) other" by (simp add: owned_after_def le_supI1)
  have "(tables w)(y := None, x \<mapsto> other) =
      (\<lambda>z. if z = x then Some other else if z \<in> {y} then None else tables w z)"
    by auto
  with world_ok_step[OF assms(1) A heap_ok_list_delete[OF world_ok_heap[OF assms(1)]] t un own]
  show ?thesis by simp
qed

theorem reachable_world_ok: "reachable w \<Longrightarrow> world_ok w"
proof (induction rule: reachable.induct)
  case by_start
  show ?case by (rule world_ok_empty)
next
  case (by_construct w x hash)
  have "world_ok \<lparr>store = store w, tables = (tables w)(x \<mapsto> HashMap_ctor hash)\<rparr>"
    by (rule world_ok_new[OF by_construct.IH world_ok_heap[OF by_construct.IH] table_ok_HashMap_ctor
          unchanged_outside_refl])
      (simp add: owned_after_def HashMap_ctor_def)
  then show ?case by (simp add: world_ok_def)
next
  case (by_construct_range w x init_list hash h' t')
  from HashMap_range_ok[OF world_ok_heap[OF by_construct_range.IH], of init_list hash]
    by_construct_range.hyps(3)
  show ?case by (auto intro: world_ok_new[OF by_construct_range.IH])
next
  case (by_copy_construct w x y other h' t')
  from HashMap_copy_ok[OF world_ok_heap[OF by_copy_construct.IH]
      world_ok_table[OF by_copy_construct.IH by_copy_construct.hyps(3)]] by_copy_construct.hyps(4)
  show ?case by (auto intro: world_ok_new[OF by_copy_construct.IH])
next
  case (by_move_construct w x y other)
  from by_move_construct.hyps have xy: "x \<noteq> y" by auto
  have "list_delete (store w) [] = store w" by (simp add: list_delete_def)
  with world_ok_move[OF by_move_construct.IH by_move_construct.hyps(3) xy, of "[]"]
  show ?case by (simp add: HashMap_move_eq world_ok_def)
next
  case (by_copy_assignment w x t y other h' t')
  from copy_assign_ok[OF world_ok_heap[OF by_copy_assignment.IH]
      world_ok_table[OF by_copy_assignment.IH by_copy_assignment.hyps(2)]
      world_ok_table[OF by_copy_assignment.IH by_copy_assignment.hyps(3)]] by_copy_assignment.hyps(4)
  show ?case by (auto intro: world_ok_update[OF by_copy_assignment.IH by_copy_assignment.hyps(2)])
next
  case (by_move_assignment w x t y other h' t' other')
  note ok = by_move_assignment.IH
  from by_move_assignment.hyps(5) have eq: "h' = list_delete (store w) (elements_' t)" "t' = other"
    by (simp_all add: move_assign_eq)
  have 1: "set (elements_' t) \<inter> set (elements_' other) = {}"
    by (rule world_ok_disjoint[OF ok by_move_assignment.hyps(2,3,4)])
  have 2: "\<forall>z u. tables w z = Some u \<longrightarrow> z \<noteq> x \<longrightarrow> set (elements_' u) \<inter> set (elements_' t) = {}"
    using world_ok_disjoint[OF ok _ by_move_assignment.hyps(2)] by blast
  from world_ok_move[OF ok by_move_assignment.hyps(3,4) 1 2] show ?case by (simp add: eq)
next
  case (by_insert w x t el h' t')
  from insert_op_ok[OF world_ok_heap[OF by_insert.IH] world_ok_table[OF by_insert.IH by_insert.hyps(2)], of el]
    by_insert.hyps(3)
  show ?case by (auto intro: world_ok_update[OF by_insert.IH by_insert.hyps(2)])
next
  case (by_erase w x t key h' t')
  from delete_element_ok[OF world_ok_heap[OF by_erase.IH] world_ok_table[OF by_erase.IH by_erase.hyps(2)], of key]
    by_erase.hyps(3)
  show ?case by (auto simp: erase_def intro: world_ok_update[OF by_erase.IH by_erase.hyps(2)])
next
  case (by_subscript w x t dflt key h' t' r)
  from subscript_ok[OF world_ok_heap[OF by_subscript.IH] world_ok_table[OF by_subscript.IH by_subscript.hyps(2)], of dflt key]
    by_subscript.hyps(3)
  show ?case by (auto intro: world_ok_update[OF by_subscript.IH by_subscript.hyps(2)])
next
  case (by_write w x t r v h')
  from write_value_ok[OF world_ok_heap[OF by_write.IH] world_ok_table[OF by_write.IH by_write.hyps(2)]
      by_write.hyps(3), of v] by_write.hyps(4)
  have "heap_ok h'" "table_ok h' t" "unchanged_outside (set (elements_' t)) (store w) h'" by auto
  from world_ok_update[OF by_write.IH by_write.hyps(2) this] by_write.hyps(2)
  have "world_ok \<lparr>store = h', tables = (tables w)(x \<mapsto> t)\<rparr>" by (simp add: owned_after_def)
  moreover have "(tables w)(x \<mapsto> t) = tables w" using by_write.hyps(2) by auto
  ultimately show ?case by (simp add: world_ok_def)
next
  case (by_clear w x t h' t')
  from clear_ok[OF world_ok_heap[OF by_clear.IH] by_clear.hyps(3)]
  show ?case by (auto intro: world_ok_update[OF by_clear.IH by_clear.hyps(2)])
next
  case (by_destroy w x t)
  note ok = by_destroy.IH
  let ?h = "list_delete (store w) (elements_' t)"
  have hk: "heap_ok ?h" by (rule heap_ok_list_delete[OF world_ok_heap[OF ok]])
  have tb: "table_ok ?h u" if u: "tables w y = Some u" "y \<noteq> x" for y u
  proof -
    from world_ok_disjoint[OF ok u(1) by_destroy.hyps(2) u(2)]
    have "\<forall>a\<in>set (elements_' u). cells ?h a = cells (store w) a"
      by (auto simp: list_delete_cells)
    from table_ok_frame[OF world_ok_table[OF ok u(1)] this] show ?thesis .
  qed
  have dj: "set (elements_' u) \<inter> set (elements_' v) = {}"
    if "tables w y = Some u" "tables w z = Some v" "y \<noteq> z" for y z u v
    using world_ok_disjoint[OF ok that] .
  show ?case unfolding world_ok_def
  proof (intro conjI allI impI)
    show "heap_ok (store \<lparr>store = ?h, tables = (tables w)(x := None)\<rparr>)" using hk by simp
  next
    fix y u assume "tables \<lparr>store = ?h, tables = (tables w)(x := None)\<rparr> y = Some u"
    then have "tables w y = Some u" "y \<noteq> x" by (auto split: if_splits)
    from tb[OF this] show "table_ok (store \<lparr>store = ?h, tables = (tables w)(x := None)\<rparr>) u" by simp
  next
    fix y z u v
    assume "tables \<lparr>store = ?h, tables = (tables w)(x := None)\<rparr> y = Some u"
      "tables \<lparr>store = ?h, tables = (tables w)(x := None)\<rparr> z = Some v" "y \<noteq> z"
    then have "tables w y = Some u" "tables w z = Some v" "y \<noteq> z" by (auto split: if_splits)
    from dj[OF this] show "set (elements_' u) \<inter> set (elements_' v) = {}" .
  qed
qed

subsection \<open>Traces of inserts, total lookups\<close>

lemma key_of_new_node:
  "key_of (snd (new_node h el)) a = (if a = next_addr h then fst el else key_of h a)"
  by (simp add: key_of_def new_node_def)

lemma capacity_trace_five:
  "capacity_trace 0 (Suc 0) 5 = [(1, 2), (2, 4), (3, 8), (4, 16), (5, 16)]"
  by (simp add: eval_nat_numeral capacity_after_def)

lemma insert_trace_distinct:
  assumes "heap_ok h" "consistent h t" "distinct (map fst els)"
    "fst ` set els \<inter> key_of h ` set (elements_' t) = {}"
  shows "insert_trace h t els = Inr (capacity_trace (size_' t) (capacity_' t) (length els))"
  using assms
proof (induction els arbitrary: h t)
  case Nil
  then show ?case by simp
next
  case (Cons el els)
  let ?h1 = "snd (new_node h el)"
  from Cons.prems(4) have "fst el \<notin> key_of h ` set (elements_' t)" by auto
  then have abs: "\<forall>a\<in>set (elements_' t). key_of h a \<noteq> fst el" by (metis imageI)
  from add_element_absent[OF Cons.prems(1,2) abs] obtain t1 where
    t1: "add_element h t el = Inr (?h1, t1, hash_' t (fst el))" "consistent ?h1 t1"
      "elements_' t1 = elements_' t @ [next_addr h]" "size_' t1 = size_' t + 1"
      "capacity_' t1 = capacity_after (size_' t + 1) (capacity_' t)"
    by blast
  have fresh: "next_addr h \<notin> set (elements_' t)" by (rule heap_ok_fresh[OF Cons.prems(1,2)])
  have "key_of ?h1 ` set (elements_' t1) = insert (fst el) (key_of h ` set (elements_' t))"
    using fresh by (auto simp: t1(3) key_of_new_node)
  with Cons.prems(3,4) have dis: "fst ` set els \<inter> key_of ?h1 ` set (elements_' t1) = {}" by auto
  from Cons.prems(3) have d: "distinct (map fst els)" by simp
  from Cons.IH[OF heap_ok_new_node[OF Cons.prems(1)] t1(2) d dis]
  have "insert_trace ?h1 t1 els = Inr (capacity_trace (size_' t1) (capacity_' t1) (length els))" .
  with t1 show ?case by (simp add: insert_op_def size_op_def)
qed

lemma get_position_loop_total:
  "\<forall>a\<in>set b. cells h a \<noteq> None \<Longrightarrow> \<exists>r. get_position_loop h b key i = Inr r"
  by (induction b arbitrary: i) auto

lemma get_position_any_hash:
  assumes "consistent h t"
  shows "raw_hash mod capacity_' t < length (hash_table_' t) \<and>
         (\<exists>ind. get_position h t key raw_hash = Inr (raw_hash mod capacity_' t, ind))"
proof -
  let ?b = "raw_hash mod capacity_' t"
  from consistent_capacity[OF assms] have c: "capacity_' t \<noteq> 0" "?b < length (hash_table_' t)" "?b < capacity_' t"
    by simp_all
  from consistent_bucket[OF assms c(3)] have "set (hash_table_' t ! ?b) \<subseteq> set (elements_' t)" by auto
  with consistent_live[OF assms] have "\<forall>a\<in>set (hash_table_' t ! ?b). cells h a \<noteq> None" by blast
  from get_position_loop_total[OF this, of key 0] c show ?thesis by (auto simp: get_position_def)
qed

lemma find_op_total:
  assumes "consistent h t"
  shows "\<exists>r. find_op h t key = Inr r"
proof (cases "\<exists>a\<in>set (elements_' t). key_of h a = key")
  case True
  then obtain a where "a \<in> set (elements_' t)" "key_of h a = key" by blast
  from find_op_present[OF assms this] show ?thesis by blast
next
  case False
  then have "\<forall>a\<in>set (elements_' t). key_of h a \<noteq> key" by blast
  from find_op_absent[OF assms this] show ?thesis by blast
qed

lemma erase_then_find:
  assumes "consistent h t"
  shows "\<exists>h' t'. erase h t key = Inr (h', t') \<and> find_op h' t' key = Inr (end_iterator t')"
proof (cases "\<exists>a\<in>set (elements_' t). key_of h a = key")
  case True
  then obtain a where a: "a \<in> set (elements_' t)" "key_of h a = key" by blast
  from delete_element_present[OF assms a] obtain t' where
    t': "delete_element h t key = Inr (delete_node h a, t')" "consistent (delete_node h a) t'"
      "elements_' t' = remove1 a (elements_' t)"
    by blast
  from assms have d: "distinct (elements_' t)" by (simp add: consistent_def list_ok_def)
  have "\<forall>x\<in>set (elements_' t'). key_of (delete_node h a) x \<noteq> key"
  proof
    fix x assume "x \<in> set (elements_' t')"
    with t'(3) d have x: "x \<in> set (elements_' t)" "x \<noteq> a" by auto
    with consistent_key_inj[OF assms x(1) a(1)] a(2) have "key_of h x \<noteq> key" by auto
    with x(2) show "key_of (delete_node h a) x \<noteq> key" by (simp add: key_of_delete_node)
  qed
  from find_op_absent[OF t'(2) this] t'(1) show ?thesis by (simp add: erase_def end_iterator_def)
next
  case False
  then have abs: "\<forall>a\<in>set (elements_' t). key_of h a \<noteq> key" by blast
  from delete_element_absent[OF assms abs] obtain t' where
    t': "delete_element h t key = Inr (h, t')" "consistent h t'" "elements_' t' = elements_' t"
    by blast
  from abs t'(3) have "\<forall>a\<in>set (elements_' t'). key_of h a \<noteq> key" by simp
  from find_op_absent[OF t'(2) this] t'(1) show ?thesis by (simp add: erase_def end_iterator_def)
qed

lemma rebuild_if_needed_same:
  assumes "consistent h t" "rebuild_if_needed h t = Inr t'" "capacity_' t' = capacity_' t"
  shows "t' = t"
proof -
  from consistent_capacity[OF assms(1)] have c: "1 \<le> capacity_' t" by simp
  from rebuild_if_needed_consistent[OF assms(1)] assms(2,3)
  have "capacity_after (size_' t) (capacity_' t) = capacity_' t" by auto
  from rebuild_if_needed_keep[OF this c, of h] assms(2) show ?thesis by simp
qed

lemma reachable_table:
  assumes "reachable w" "tables w x = Some t"
  shows "heap_ok (store w)" and "consistent (store w) t" and "load_ok t"
  using world_ok_heap[OF reachable_world_ok[OF assms(1)]]
    world_ok_table[OF reachable_world_ok[OF assms(1)] assms(2)]
  by (simp_all add: table_ok_def)

text \<open>In particular \<^verbatim>\<open>size()\<close> is the number of entries of a full iteration, and every
  node of the list is in the bucket its key hashes to, once, and in no other bucket.\<close>

lemma count_list_distinct: "distinct xs \<Longrightarrow> count_list xs a = (if a \<in> set xs then 1 else 0)"
  by (induction xs) auto

lemma reachable_tables_indexed:
  assumes "reachable w" "tables w x = Some t"
  shows "\<exists>els. iterate (store w) t = Inr els \<and> size_op t = length els"
    and "a \<in> set (elements_' t) \<Longrightarrow> b < capacity_' t \<Longrightarrow>
         count_list (hash_table_' t ! b) a =
           (if b = hash_' t (key_of (store w) a) mod capacity_' t then 1 else 0)"
    and "b < capacity_' t \<Longrightarrow> set (hash_table_' t ! b) \<subseteq> set (elements_' t)"
proof -
  note c = reachable_table(2)[OF assms]
  from c have "size_' t = length (elements_' t)" by (simp add: consistent_def list_ok_def)
  with iterate_consistent[OF c] show "\<exists>els. iterate (store w) t = Inr els \<and> size_op t = length els"
    by (simp add: size_op_def)
  show "count_list (hash_table_' t ! b) a =
           (if b = hash_' t (key_of (store w) a) mod capacity_' t then 1 else 0)"
    if "a \<in> set (elements_' t)" "b < capacity_' t"
    using consistent_bucket[OF c that(2)] that(1)
    by (auto simp: count_list_distinct bucket_of_def)
  show "set (hash_table_' t ! b) \<subseteq> set (elements_' t)" if "b < capacity_' t"
    using consistent_bucket[OF c that] by auto
qed


subsection \<open>The example worlds are reachable\<close>

lemmas constants =
  kDefaultCapacity_def kPersentageOfCapacityToDecrease_def kPersentageOfCapacityToIncrease_def
  kDecreasingFactor_def kIncreasingFactor_def to_size_t_def

lemma replicate_numeral: "replicate (numeral k) x = x # replicate (pred_numeral k) x"
  by (simp add: numeral_eq_Suc)

lemma list_update_numeral: "(x # xs)[numeral k := y] = x # xs[pred_numeral k := y]"
  by (simp add: numeral_eq_Suc)

lemmas evaluation = insert_op_def add_element_def get_position_def erase_def delete_element_def
  rebuild_if_needed_def rebuild_def new_node_def delete_node_def constants
  replicate_numeral list_update_numeral identity_hash_def

lemma insert_one_entry:
  "insert_op empty_heap (HashMap_ctor identity_hash) (1, 1) = Inr (one_entry_heap, one_entry_table)"
  by (simp add: evaluation HashMap_ctor_def empty_heap_def one_entry_heap_def one_entry_table_def)

lemma reinsert_one_entry:
  "insert_op one_entry_heap one_entry_table (1, 2) = Inr (one_entry_heap, grown_table)"
  by (simp add: evaluation one_entry_heap_def one_entry_table_def grown_table_def)

lemma erase_absent_one_entry: "erase one_entry_heap one_entry_table 2 = Inr (one_entry_heap, grown_table)"
  by (simp add: evaluation one_entry_heap_def one_entry_table_def grown_table_def)

lemma iterate_one_entry: "iterate one_entry_heap one_entry_table = Inr [(1, 1)]"
  by (simp add: one_entry_table_def one_entry_heap_def iterate_def)

lemma copy_one_entry: "HashMap_copy one_entry_heap one_entry_table = Inr (copy_heap, copy_table)"
  by (simp add: HashMap_copy_def evaluation one_entry_heap_def one_entry_table_def copy_heap_def
      copy_table_def)

lemma copy_assign_one_entry:
  "copy_assign one_entry_heap (HashMap_ctor identity_hash) one_entry_table = Inr (copy_heap, copy_table)"
  by (simp add: copy_assign_def list_delete_def evaluation HashMap_ctor_def one_entry_heap_def
      one_entry_table_def copy_heap_def copy_table_def)

lemma iterate_grown: "iterate one_entry_heap grown_table = Inr [(1, 1)]"
  by (simp add: grown_table_def one_entry_heap_def iterate_def)

lemma reachable_one_entry_world: "reachable one_entry_world"
proof -
  let ?w = "\<lparr>store = empty_heap, tables = [0 \<mapsto> HashMap_ctor identity_hash]\<rparr> :: (nat, nat) world"
  have "reachable ((empty_world :: (nat, nat) world)
      \<lparr>tables := (tables (empty_world :: (nat, nat) world))(0 \<mapsto> HashMap_ctor identity_hash)\<rparr>)"
    by (rule reachable.by_construct[OF reachable.by_start]) (simp add: empty_world_def)
  then have 1: "reachable ?w" by (simp add: empty_world_def)
  have 2: "tables ?w 0 = Some (HashMap_ctor identity_hash)" by simp
  have 3: "insert_op (store ?w) (HashMap_ctor identity_hash) (1, 1) = Inr (one_entry_heap, one_entry_table)"
    using insert_one_entry by simp
  have "\<lparr>store = one_entry_heap, tables = (tables ?w)(0 \<mapsto> one_entry_table)\<rparr> = one_entry_world"
    by (simp add: one_entry_world_def)
  with reachable.by_insert[OF 1 2 3] show ?thesis by simp
qed

lemma reachable_grown_world: "reachable grown_world"
proof -
  have 2: "tables one_entry_world 0 = Some one_entry_table" by (simp add: one_entry_world_def)
  have 3: "insert_op (store one_entry_world) one_entry_table (1, 2) = Inr (one_entry_heap, grown_table)"
    using reinsert_one_entry by (simp add: one_entry_world_def)
  have "\<lparr>store = one_entry_heap, tables = (tables one_entry_world)(0 \<mapsto> grown_table)\<rparr> = grown_world"
    by (simp add: one_entry_world_def grown_world_def)
  with reachable.by_insert[OF reachable_one_entry_world 2 3] show ?thesis by simp
qed

lemma write_value_live:
  "cells h r = Some (k, x) \<Longrightarrow> write_value h r v = Inr (h\<lparr>cells := (cells h)(r \<mapsto> (k, v))\<rparr>)"
  by (simp add: write_value_def)

lemma iterate_unchanged:
  assumes "consistent h t" "\<forall>a\<in>set (elements_' t). cells h' a = cells h a"
  shows "iterate h' t = iterate h t"
proof -
  from assms(2) have "map (cells h') (elements_' t) = map (cells h) (elements_' t)" by simp
  with consistent_live[OF assms(1)] show ?thesis by (intro iterate_cong) auto
qed

lemma write_elsewhere:
  assumes "heap_ok h'" "table_ok h' c" "r \<in> set (elements_' c)"
    "consistent h t" "\<forall>a\<in>set (elements_' t). cells h' a = cells h a" "r \<notin> set (elements_' t)"
  shows "\<exists>h''. write_value h' r v = Inr h'' \<and> iterate h'' t = iterate h t"
proof -
  from write_value_ok[OF assms(1,2,3), of v] obtain h'' where
    w: "write_value h' r v = Inr h''" "\<forall>a. a \<noteq> r \<longrightarrow> cells h'' a = cells h' a" by blast
  from w(2) assms(5,6) have "\<forall>a\<in>set (elements_' t). cells h'' a = cells h a" by auto
  from iterate_unchanged[OF assms(4) this] w(1) show ?thesis by blast
qed

lemma reachable_two_table_world: "reachable two_table_world"
proof -
  have "reachable (one_entry_world\<lparr>tables := (tables one_entry_world)(1 \<mapsto> HashMap_ctor identity_hash)\<rparr>)"
    by (rule reachable.by_construct[OF reachable_one_entry_world]) (simp add: one_entry_world_def)
  then show ?thesis by (simp add: one_entry_world_def two_table_world_def)
qed

section \<open>Tables in use\<close>

text \<open>
  The tables of the reachable worlds are the tables in use: none of them has had its list
  and its bucket array taken by a move. Of these tables the lookups behave as their
  comments say.
\<close>

text \<open>
  In a reachable world, for a table whose iteration yields \<open>els\<close>: \<^verbatim>\<open>at(k)\<close> throws
  \<^verbatim>\<open>std::out_of_range\<close> exactly when \<open>k\<close> is not among the keys; when \<open>(k, v)\<close> is an
  entry it returns a reference to the node that holds \<open>(k, v)\<close>. \<^verbatim>\<open>at\<close> is a
  \<^verbatim>\<open>const\<close> member function and \<open>at_op\<close> returns no new state. \<^verbatim>\<open>insert\<close>,
  \<^verbatim>\<open>erase\<close>, \<^verbatim>\<open>find\<close> and \<^verbatim>\<open>operator[]\<close> return without an error.
\<close>

lemma at_op_in_use:
  assumes "reachable w" "tables w x = Some t" "iterate (store w) t = Inr els"
  shows "(at_op (store w) t k = Inl out_of_range \<longleftrightarrow> k \<notin> fst ` set els) \<and>
         (\<forall>v. (k, v) \<in> set els \<longrightarrow>
            (\<exists>r. at_op (store w) t k = Inr r \<and> cells (store w) r = Some (k, v))) \<and>
         (\<exists>r. insert_op (store w) t el = Inr r) \<and> (\<exists>r. erase (store w) t k = Inr r) \<and>
         (\<exists>r. find_op (store w) t k = Inr r) \<and> (\<exists>r. subscript dflt (store w) t k = Inr r)"
proof -
  note h = reachable_table(1)[OF assms(1,2)] and c = reachable_table(2)[OF assms(1,2)]
  have tb: "table_ok (store w) t" using reachable_table[OF assms(1,2)] by (simp add: table_ok_def)
  have present: "\<exists>r. at_op (store w) t k = Inr r \<and> cells (store w) r = Some (k, v)"
    if "(k, v) \<in> set els" for v
  proof -
    from iterate_entry[OF c assms(3)] that obtain a where
      a: "a \<in> set (elements_' t)" "cells (store w) a = Some (k, v)" by blast
    then have "key_of (store w) a = k" by (simp add: key_of_def)
    from at_op_present[OF c a(1) this] a(2) show ?thesis by blast
  qed
  have absent: "at_op (store w) t k = Inl out_of_range" if "k \<notin> fst ` set els"
  proof -
    from that iterate_keys[OF c assms(3)] have "\<forall>a\<in>set (elements_' t). key_of (store w) a \<noteq> k"
      by auto
    from at_op_absent[OF c this] show ?thesis .
  qed
  have "at_op (store w) t k = Inl out_of_range \<longleftrightarrow> k \<notin> fst ` set els"
  proof
    assume e: "at_op (store w) t k = Inl out_of_range"
    show "k \<notin> fst ` set els"
    proof
      assume "k \<in> fst ` set els"
      then obtain v where "(k, v) \<in> set els" by auto
      from present[OF this] e show False by auto
    qed
  qed (rule absent)
  moreover have "\<exists>r. insert_op (store w) t el = Inr r" using insert_op_ok[OF h tb, of el] by blast
  moreover have "\<exists>r. erase (store w) t k = Inr r"
    using delete_element_ok[OF h tb, of k] by (auto simp: erase_def)
  moreover have "\<exists>r. find_op (store w) t k = Inr r" by (rule find_op_total[OF c])
  moreover have "\<exists>r. subscript dflt (store w) t k = Inr r" using subscript_ok[OF h tb, of dflt k] by blast
  ultimately show ?thesis using present by blast
qed

text \<open>At the table with the entry \<open>(1, 1)\<close>: the key 1 is found, the key 7 is not.\<close>

lemma at_op_in_use_example:
  "reachable one_entry_world \<and> tables one_entry_world 0 = Some one_entry_table
   \<and> iterate (store one_entry_world) one_entry_table = Inr [(1, 1)]
   \<and> at_op (store one_entry_world) one_entry_table 1 = Inr 0
   \<and> cells (store one_entry_world) 0 = Some (1, 1)
   \<and> at_op (store one_entry_world) one_entry_table 7 = Inl out_of_range"
proof -
  have t: "tables one_entry_world 0 = Some one_entry_table" by (simp add: one_entry_world_def)
  have i: "iterate (store one_entry_world) one_entry_table = Inr [(1, 1)]"
    using iterate_one_entry by (simp add: one_entry_world_def)
  have c0: "cells (store one_entry_world) 0 = Some (1, 1)"
    by (simp add: one_entry_world_def one_entry_heap_def)
  have only: "\<And>r. cells (store one_entry_world) r = Some (1, 1) \<Longrightarrow> r = 0"
    by (simp add: one_entry_world_def one_entry_heap_def split: if_splits)
  from at_op_in_use[OF reachable_one_entry_world t i, of 1] only
  have p: "at_op (store one_entry_world) one_entry_table 1 = Inr 0" by auto
  from at_op_in_use[OF reachable_one_entry_world t i, of 7]
  have a: "at_op (store one_entry_world) one_entry_table 7 = Inl out_of_range" by simp
  show ?thesis by (intro conjI reachable_one_entry_world t i p c0 a)
qed

text \<open>
  In a reachable world, for a table whose iteration yields \<open>els\<close>, with \<open>dflt\<close> the
  value \<^verbatim>\<open>ValueType()\<close>: if \<open>k\<close> is not among the keys, \<^verbatim>\<open>operator[](k)\<close> appends
  the entry \<open>(k, dflt)\<close> and returns a reference to its node; if \<open>(k, v)\<close> is an entry, it
  returns a reference to the node that holds \<open>(k, v)\<close>, the store is unchanged and
  iteration yields the same entries. In both cases it returns without an error and a
  write through the reference sets the value of that node.
\<close>

lemma subscript_in_use:
  assumes "reachable w" "tables w x = Some t" "iterate (store w) t = Inr els"
  shows "(k \<notin> fst ` set els \<longrightarrow>
            (\<exists>h' t' r. subscript dflt (store w) t k = Inr (h', t', r) \<and>
               iterate h' t' = Inr (els @ [(k, dflt)]) \<and> r \<in> set (elements_' t') \<and>
               cells h' r = Some (k, dflt) \<and>
               write_value h' r v' = Inr (h'\<lparr>cells := (cells h')(r \<mapsto> (k, v'))\<rparr>))) \<and>
         (\<forall>v. (k, v) \<in> set els \<longrightarrow>
            (\<exists>t' r. subscript dflt (store w) t k = Inr (store w, t', r) \<and>
               iterate (store w) t' = Inr els \<and> r \<in> set (elements_' t') \<and>
               cells (store w) r = Some (k, v) \<and>
               write_value (store w) r v' = Inr ((store w)\<lparr>cells := (cells (store w))(r \<mapsto> (k, v'))\<rparr>)))"
proof (intro conjI allI impI)
  note h = reachable_table(1)[OF assms(1,2)] and c = reachable_table(2)[OF assms(1,2)]
  let ?h = "store w"
  from assms(3) have els: "els = map (\<lambda>a. the (cells ?h a)) (elements_' t)"
    by (simp add: iterate_consistent[OF c])
  {
    assume "k \<notin> fst ` set els"
    with iterate_keys[OF c assms(3)] have abs: "\<forall>a\<in>set (elements_' t). key_of ?h a \<noteq> k" by auto
    let ?h1 = "snd (new_node ?h (k, dflt))"
    from subscript_absent[OF h c abs, of dflt] obtain t' where
      t': "subscript dflt ?h t k = Inr (?h1, t', next_addr ?h)" "consistent ?h1 t'"
        "elements_' t' = elements_' t @ [next_addr ?h]"
      by blast
    have fresh: "next_addr ?h \<notin> set (elements_' t)" by (rule heap_ok_fresh[OF h c])
    have new: "cells ?h1 (next_addr ?h) = Some (k, dflt)" by (simp add: new_node_def)
    have old: "map (\<lambda>a. the (cells ?h1 a)) (elements_' t) = map (\<lambda>a. the (cells ?h a)) (elements_' t)"
      using fresh by (intro map_cong) (auto simp: new_node_def)
    have "iterate ?h1 t' = Inr (els @ [(k, dflt)])"
      by (simp add: iterate_consistent[OF t'(2)] t'(3) old new els)
    with t' new write_value_live[OF new, of v']
    show "\<exists>h' t' r. subscript dflt ?h t k = Inr (h', t', r) \<and>
               iterate h' t' = Inr (els @ [(k, dflt)]) \<and> r \<in> set (elements_' t') \<and>
               cells h' r = Some (k, dflt) \<and>
               write_value h' r v' = Inr (h'\<lparr>cells := (cells h')(r \<mapsto> (k, v'))\<rparr>)"
      by auto
  }
  {
    fix v assume "(k, v) \<in> set els"
    with iterate_entry[OF c assms(3)] obtain a where
      a: "a \<in> set (elements_' t)" "cells ?h a = Some (k, v)" by blast
    then have "key_of ?h a = k" by (simp add: key_of_def)
    from subscript_present[OF c a(1) this, of dflt] obtain t' where
      t': "subscript dflt ?h t k = Inr (?h, t', a)" "elements_' t' = elements_' t"
      by blast
    have "iterate ?h t' = Inr els" using assms(3) by (simp add: iterate_def t'(2))
    with t' a write_value_live[OF a(2), of v']
    show "\<exists>t' r. subscript dflt ?h t k = Inr (?h, t', r) \<and>
               iterate ?h t' = Inr els \<and> r \<in> set (elements_' t') \<and>
               cells ?h r = Some (k, v) \<and>
               write_value ?h r v' = Inr (?h\<lparr>cells := (cells ?h)(r \<mapsto> (k, v'))\<rparr>)"
      by auto
  }
qed

text \<open>At the table with the entry \<open>(1, 1)\<close>, for the absent key 7 and the key 1.\<close>

lemma subscript_in_use_example:
  "reachable one_entry_world \<and> tables one_entry_world 0 = Some one_entry_table
   \<and> iterate (store one_entry_world) one_entry_table = Inr [(1, 1)]
   \<and> 7 \<notin> fst ` set [(1 :: nat, 1 :: nat)] \<and> (1, 1) \<in> set [(1 :: nat, 1 :: nat)]
   \<and> (\<exists>h' t' r. subscript 0 (store one_entry_world) one_entry_table 7 = Inr (h', t', r)
         \<and> iterate h' t' = Inr [(1, 1), (7, 0)] \<and> cells h' r = Some (7, 0))
   \<and> (\<exists>t' r. subscript 0 (store one_entry_world) one_entry_table 1 = Inr (store one_entry_world, t', r)
         \<and> iterate (store one_entry_world) t' = Inr [(1, 1)]
         \<and> cells (store one_entry_world) r = Some (1, 1))"
proof -
  have t: "tables one_entry_world 0 = Some one_entry_table" by (simp add: one_entry_world_def)
  have i: "iterate (store one_entry_world) one_entry_table = Inr [(1, 1)]"
    using iterate_one_entry by (simp add: one_entry_world_def)
  have a: "7 \<notin> fst ` set [(1 :: nat, 1 :: nat)]" by simp
  have p: "(1, 1) \<in> set [(1 :: nat, 1 :: nat)]" by simp
  from subscript_in_use[OF reachable_one_entry_world t i, of 7 0 0] a
  have 1: "\<exists>h' t' r. subscript 0 (store one_entry_world) one_entry_table 7 = Inr (h', t', r)
         \<and> iterate h' t' = Inr [(1, 1), (7, 0)] \<and> cells h' r = Some (7, 0)"
    by auto
  from subscript_in_use[OF reachable_one_entry_world t i, of 1 0 0] p
  have 2: "\<exists>t' r. subscript 0 (store one_entry_world) one_entry_table 1 = Inr (store one_entry_world, t', r)
         \<and> iterate (store one_entry_world) t' = Inr [(1, 1)]
         \<and> cells (store one_entry_world) r = Some (1, 1)"
    by auto
  show ?thesis by (intro conjI reachable_one_entry_world t i a p 1 2)
qed

text \<open>
  In a reachable world every table has a capacity of at least 1 and a bucket array of
  exactly that many buckets. So for every key and raw hash \<^verbatim>\<open>get_position\<close> divides by
  a capacity that is not zero and returns a bucket index inside the bucket array, and
  \<^verbatim>\<open>find\<close>, \<^verbatim>\<open>operator[]\<close>, \<^verbatim>\<open>insert\<close> and \<^verbatim>\<open>erase\<close> return without an error;
  \<^verbatim>\<open>at\<close> meets neither a division by zero nor an index out of bounds.
\<close>

lemma bucket_index_in_use:
  assumes "reachable w" "tables w x = Some t"
  shows "1 \<le> capacity_' t \<and> length (hash_table_' t) = capacity_' t \<and>
         raw_hash mod capacity_' t < length (hash_table_' t) \<and>
         (\<exists>ind. get_position (store w) t k raw_hash = Inr (raw_hash mod capacity_' t, ind)) \<and>
         (\<exists>r. find_op (store w) t k = Inr r) \<and>
         at_op (store w) t k \<noteq> Inl division_by_zero \<and>
         at_op (store w) t k \<noteq> Inl index_out_of_bounds \<and>
         (\<exists>r. subscript dflt (store w) t k = Inr r) \<and>
         (\<exists>r. insert_op (store w) t el = Inr r) \<and>
         (\<exists>r. erase (store w) t k = Inr r)"
proof -
  note h = reachable_table(1)[OF assms(1,2)] and c = reachable_table(2)[OF assms(1,2)]
  have tb: "table_ok (store w) t" using reachable_table[OF assms(1,2)] by (simp add: table_ok_def)
  have at: "at_op (store w) t k \<noteq> Inl division_by_zero \<and> at_op (store w) t k \<noteq> Inl index_out_of_bounds"
  proof (cases "\<exists>a\<in>set (elements_' t). key_of (store w) a = k")
    case True
    then obtain a where "a \<in> set (elements_' t)" "key_of (store w) a = k" by blast
    from at_op_present[OF c this] show ?thesis by simp
  next
    case False
    then have "\<forall>a\<in>set (elements_' t). key_of (store w) a \<noteq> k" by blast
    from at_op_absent[OF c this] show ?thesis by simp
  qed
  have "\<exists>r. insert_op (store w) t el = Inr r" using insert_op_ok[OF h tb, of el] by blast
  moreover have "\<exists>r. erase (store w) t k = Inr r"
    using delete_element_ok[OF h tb, of k] by (auto simp: erase_def)
  moreover have "\<exists>r. subscript dflt (store w) t k = Inr r" using subscript_ok[OF h tb, of dflt k] by blast
  ultimately show ?thesis
    using consistent_capacity[OF c] get_position_any_hash[OF c, of raw_hash k] find_op_total[OF c, of k] at
    by simp
qed

text \<open>At the table with the entry \<open>(1, 1)\<close> and the key 7.\<close>

lemma bucket_index_in_use_example:
  "reachable one_entry_world \<and> tables one_entry_world 0 = Some one_entry_table
   \<and> 1 \<le> capacity_' one_entry_table
   \<and> length (hash_table_' one_entry_table) = capacity_' one_entry_table
   \<and> 7 mod capacity_' one_entry_table < length (hash_table_' one_entry_table)
   \<and> (\<exists>ind. get_position (store one_entry_world) one_entry_table 7 7
               = Inr (7 mod capacity_' one_entry_table, ind))
   \<and> (\<exists>r. find_op (store one_entry_world) one_entry_table 7 = Inr r)
   \<and> (\<exists>r. subscript 0 (store one_entry_world) one_entry_table 7 = Inr r)
   \<and> (\<exists>r. insert_op (store one_entry_world) one_entry_table (7, 7) = Inr r)
   \<and> (\<exists>r. erase (store one_entry_world) one_entry_table 7 = Inr r)"
proof -
  have t: "tables one_entry_world 0 = Some one_entry_table" by (simp add: one_entry_world_def)
  from bucket_index_in_use[OF reachable_one_entry_world t, of 7 7 0 "(7, 7)"]
    reachable_one_entry_world t
  show ?thesis by simp
qed

section \<open>The claims\<close>

text \<open>
  C1, at the table a move constructor has moved from. After
  \<^verbatim>\<open>m.insert({1, 1}); HashMap n(std::move(m));\<close> the table \<^verbatim>\<open>m\<close> has given its list
  and its bucket array away and kept its \<^verbatim>\<open>size_\<close>: \<^verbatim>\<open>m.size()\<close> is 1 and a full
  iteration over \<^verbatim>\<open>m\<close> yields no entry, so in this state \<^verbatim>\<open>size()\<close> is not the number
  of entries of a full iteration. (Of the tables of the reachable worlds, where a table
  moved from is not used again, both halves of C1 hold: \<open>reachable_tables_indexed\<close>.)
\<close>

theorem C1_size_after_move:
  "insert_op empty_heap (HashMap_ctor identity_hash) (1, 1) = Inr (one_entry_heap, one_entry_table)
   \<and> size_op (snd (HashMap_move one_entry_table)) = 1
   \<and> iterate one_entry_heap (snd (HashMap_move one_entry_table)) = Inr []"
proof (intro conjI)
  show "insert_op empty_heap (HashMap_ctor identity_hash) (1, 1) = Inr (one_entry_heap, one_entry_table)"
    by (rule insert_one_entry)
  show "size_op (snd (HashMap_move one_entry_table)) = 1"
    by (simp add: HashMap_move_def one_entry_table_def size_op_def)
  show "iterate one_entry_heap (snd (HashMap_move one_entry_table)) = Inr []"
    by (simp add: HashMap_move_def iterate_def)
qed

text \<open>
  C2, amended. An empty table with capacity 1 is constructed in a reachable world, with any
  hasher, and five pairs with pairwise different keys are inserted one by one. After the
  k-th insert the size is k and the capacity is 2, 4, 8, 16, 16: the table grows whenever
  the size has reached half the capacity.
\<close>

theorem C2_capacities_of_five_inserts:
  assumes "reachable w" "distinct (map fst els)" "length els = 5"
  shows "insert_trace (store w) (HashMap_ctor hash) els =
           Inr [(1, 2), (2, 4), (3, 8), (4, 16), (5, 16)]"
proof -
  have h: "heap_ok (store w)" by (rule world_ok_heap[OF reachable_world_ok[OF assms(1)]])
  have c: "consistent (store w) (HashMap_ctor hash)"
    using table_ok_HashMap_ctor[of "store w" hash] by (simp add: table_ok_def)
  have e: "fst ` set els \<inter> key_of (store w) ` set (elements_' (HashMap_ctor hash)) = {}"
    by (simp add: HashMap_ctor_def)
  have s: "size_' (HashMap_ctor hash) = 0" "capacity_' (HashMap_ctor hash) = Suc 0"
    by (simp_all add: HashMap_ctor_def kDefaultCapacity_def)
  from insert_trace_distinct[OF h c assms(2) e] show ?thesis
    unfolding s assms(3) capacity_trace_five .
qed

text \<open>C2 at five keys that the hasher sends to the same bucket.\<close>

theorem C2_witness:
  "reachable (empty_world :: (nat, nat) world)
   \<and> distinct (map fst [(10, 0), (20, 0), (30, 0), (40, 0), (50 :: nat, 0 :: nat)])
   \<and> length [(10, 0), (20, 0), (30, 0), (40, 0), (50 :: nat, 0 :: nat)] = 5
   \<and> insert_trace (store empty_world) (HashMap_ctor zero_hash)
        [(10, 0), (20, 0), (30, 0), (40, 0), (50 :: nat, 0 :: nat)]
      = Inr [(1, 2), (2, 4), (3, 8), (4, 16), (5, 16)]"
proof -
  have r: "reachable (empty_world :: (nat, nat) world)" by (rule reachable.by_start)
  have d: "distinct (map fst [(10, 0), (20, 0), (30, 0), (40, 0), (50 :: nat, 0 :: nat)])" by simp
  have l: "length [(10, 0), (20, 0), (30, 0), (40, 0), (50 :: nat, 0 :: nat)] = 5" by simp
  show ?thesis
    by (intro conjI r d l C2_capacities_of_five_inserts[OF r d l])
qed

text \<open>C2 as stated fails: with a hasher that returns the key, the capacities after the
  inserts of the keys 1 to 5 are 2, 4, 8, 16, 16 and not 2, 4, 4, 8, 8.\<close>

theorem C2_counterexample:
  "insert_trace empty_heap (HashMap_ctor identity_hash)
       [(1, 1), (2, 2), (3, 3), (4, 4), (5, 5 :: nat)]
     = Inr [(1, 2), (2, 4), (3, 8), (4, 16), (5, 16)]
   \<and> insert_trace empty_heap (HashMap_ctor identity_hash)
       [(1, 1), (2, 2), (3, 3), (4, 4), (5, 5 :: nat)]
     \<noteq> Inr [(1, 2), (2, 4), (3, 4), (4, 8), (5, 8)]"
proof -
  let ?els = "[(1, 1), (2, 2), (3, 3), (4, 4), (5, 5)] :: (nat \<times> nat) list"
  have h: "heap_ok (empty_heap :: (nat, nat) heap)" by (simp add: heap_ok_def empty_heap_def)
  have c: "consistent (empty_heap :: (nat, nat) heap) (HashMap_ctor identity_hash)"
    using table_ok_HashMap_ctor[of "empty_heap :: (nat, nat) heap" identity_hash]
    by (simp add: table_ok_def)
  have s: "size_' (HashMap_ctor identity_hash) = 0" "capacity_' (HashMap_ctor identity_hash) = Suc 0"
    by (simp_all add: HashMap_ctor_def kDefaultCapacity_def)
  have l: "length ?els = 5" by simp
  have "insert_trace empty_heap (HashMap_ctor identity_hash) ?els =
      Inr (capacity_trace (size_' (HashMap_ctor identity_hash))
             (capacity_' (HashMap_ctor identity_hash)) (length ?els))"
    by (rule insert_trace_distinct[OF h c]) (simp_all add: HashMap_ctor_def)
  then have e: "insert_trace empty_heap (HashMap_ctor identity_hash) ?els =
      Inr [(1, 2), (2, 4), (3, 8), (4, 16), (5, 16)]"
    unfolding s l capacity_trace_five .
  show ?thesis unfolding e by simp
qed

text \<open>
  C3, amended. In a reachable world, for a table whose iteration yields \<open>els\<close> and a key
  \<open>k\<close> stored with value \<open>v1\<close>: \<^verbatim>\<open>insert({k, v2})\<close> leaves the store as it is, so no
  value is overwritten, and all it does to the table is the rehash check: iteration
  still yields \<open>els\<close>, the size is the same, and the capacity is the one the check leaves
  for the unchanged size. When that is the old capacity the table is unchanged.
\<close>

theorem C3_insert_present_key:
  assumes "reachable w" "tables w x = Some t" "iterate (store w) t = Inr els" "(k, v1) \<in> set els"
  shows "\<exists>t'. insert_op (store w) t (k, v2) = Inr (store w, t') \<and>
           rebuild_if_needed (store w) t = Inr t' \<and>
           iterate (store w) t' = Inr els \<and> size_op t' = size_op t \<and>
           capacity_' t' = capacity_after (size_' t) (capacity_' t) \<and>
           (capacity_' t' = capacity_' t \<longrightarrow> t' = t)"
proof -
  note c = reachable_table(2)[OF assms(1,2)]
  from iterate_entry[OF c assms(3)] assms(4) obtain a where
    a: "a \<in> set (elements_' t)" "cells (store w) a = Some (k, v1)" by blast
  then have k: "key_of (store w) a = fst (k, v2)" by (simp add: key_of_def)
  from add_element_present[OF c a(1) k] obtain t' where
    t': "add_element (store w) t (k, v2) = Inr (store w, t', hash_' t (fst (k, v2)))"
      "rebuild_if_needed (store w) t = Inr t'" "elements_' t' = elements_' t" "size_' t' = size_' t"
      "capacity_' t' = capacity_after (size_' t) (capacity_' t)"
    by blast
  have "capacity_' t' = capacity_' t \<longrightarrow> t' = t"
    using rebuild_if_needed_same[OF c t'(2)] by blast
  moreover have "iterate (store w) t' = Inr els"
    using assms(3) by (simp add: iterate_def t'(3))
  ultimately show ?thesis using t' by (simp add: insert_op_def size_op_def)
qed

text \<open>C3 at the table with the entry \<open>(1, 1)\<close> and capacity 4: \<^verbatim>\<open>insert({1, 3})\<close>
  changes nothing.\<close>

theorem C3_witness:
  "reachable grown_world \<and> tables grown_world 0 = Some grown_table
   \<and> iterate (store grown_world) grown_table = Inr [(1, 1)]
   \<and> insert_op (store grown_world) grown_table (1, 3) = Inr (store grown_world, grown_table)"
proof -
  have t: "tables grown_world 0 = Some grown_table" by (simp add: grown_world_def)
  have i: "iterate (store grown_world) grown_table = Inr [(1, 1)]"
    by (simp add: grown_world_def grown_table_def one_entry_heap_def iterate_def)
  have "capacity_after (size_' grown_table) (capacity_' grown_table) = capacity_' grown_table"
    by (simp add: capacity_after_def grown_table_def)
  with C3_insert_present_key[OF reachable_grown_world t i, of 1 1 3]
  have "insert_op (store grown_world) grown_table (1, 3) = Inr (store grown_world, grown_table)"
    by auto
  with reachable_grown_world t i show ?thesis by simp
qed

text \<open>C3 as stated fails: in the table with the entry \<open>(1, 1)\<close> and capacity 2, reached
  by one insert, \<^verbatim>\<open>insert({1, 2})\<close> rebuilds the bucket array with capacity 4.\<close>

theorem C3_counterexample:
  "reachable one_entry_world \<and> tables one_entry_world 0 = Some one_entry_table
   \<and> iterate (store one_entry_world) one_entry_table = Inr [(1, 1)]
   \<and> insert_op (store one_entry_world) one_entry_table (1, 2) = Inr (store one_entry_world, grown_table)
   \<and> capacity_' one_entry_table = 2 \<and> capacity_' grown_table = 4
   \<and> hash_table_' one_entry_table = [[], [0]] \<and> hash_table_' grown_table = [[], [0], [], []]"
  using reachable_one_entry_world reinsert_one_entry
  by (simp add: one_entry_world_def one_entry_table_def grown_table_def iterate_def one_entry_heap_def)

text \<open>
  C4, amended. In a reachable world, for every table and key \<open>k\<close>: \<^verbatim>\<open>erase(k)\<close> returns,
  and \<^verbatim>\<open>find(k)\<close> on the table it leaves returns \<^verbatim>\<open>end()\<close>. If \<open>k\<close> is not among the
  keys of the table, \<^verbatim>\<open>erase(k)\<close> leaves the store as it is and all it does to the table
  is the rehash check: iteration yields the same entries, the size is the same, and the
  capacity is the one the check leaves for the unchanged size. When that is the old
  capacity the table is unchanged.
\<close>

theorem C4_erase:
  assumes "reachable w" "tables w x = Some t" "iterate (store w) t = Inr els"
  shows "(\<exists>h' t'. erase (store w) t k = Inr (h', t') \<and> find_op h' t' k = Inr (end_iterator t')) \<and>
         (k \<notin> fst ` set els \<longrightarrow>
            (\<exists>t'. erase (store w) t k = Inr (store w, t') \<and>
               rebuild_if_needed (store w) t = Inr t' \<and>
               iterate (store w) t' = Inr els \<and> size_op t' = size_op t \<and>
               capacity_' t' = capacity_after (size_' t) (capacity_' t) \<and>
               (capacity_' t' = capacity_' t \<longrightarrow> t' = t)))"
proof (intro conjI impI)
  note c = reachable_table(2)[OF assms(1,2)]
  show "\<exists>h' t'. erase (store w) t k = Inr (h', t') \<and> find_op h' t' k = Inr (end_iterator t')"
    by (rule erase_then_find[OF c])
  assume "k \<notin> fst ` set els"
  with iterate_keys[OF c assms(3)] have abs: "\<forall>a\<in>set (elements_' t). key_of (store w) a \<noteq> k"
    by auto
  from delete_element_absent[OF c abs] obtain t' where
    t': "delete_element (store w) t k = Inr (store w, t')"
      "rebuild_if_needed (store w) t = Inr t'" "elements_' t' = elements_' t" "size_' t' = size_' t"
      "capacity_' t' = capacity_after (size_' t) (capacity_' t)"
    by blast
  have "capacity_' t' = capacity_' t \<longrightarrow> t' = t"
    using rebuild_if_needed_same[OF c t'(2)] by blast
  moreover have "iterate (store w) t' = Inr els"
    using assms(3) by (simp add: iterate_def t'(3))
  ultimately show "\<exists>t'. erase (store w) t k = Inr (store w, t') \<and>
               rebuild_if_needed (store w) t = Inr t' \<and>
               iterate (store w) t' = Inr els \<and> size_op t' = size_op t \<and>
               capacity_' t' = capacity_after (size_' t) (capacity_' t) \<and>
               (capacity_' t' = capacity_' t \<longrightarrow> t' = t)"
    using t' by (simp add: erase_def size_op_def)
qed

text \<open>C4 at the table with the entry \<open>(1, 1)\<close> and capacity 4, and the absent key 2.\<close>

theorem C4_witness:
  "reachable grown_world \<and> tables grown_world 0 = Some grown_table
   \<and> iterate (store grown_world) grown_table = Inr [(1, 1)]
   \<and> 2 \<notin> fst ` set [(1 :: nat, 1 :: nat)]
   \<and> erase (store grown_world) grown_table 2 = Inr (store grown_world, grown_table)
   \<and> find_op (store grown_world) grown_table 2 = Inr (end_iterator grown_table)"
proof -
  have t: "tables grown_world 0 = Some grown_table" by (simp add: grown_world_def)
  have i: "iterate (store grown_world) grown_table = Inr [(1, 1)]"
    using iterate_grown by (simp add: grown_world_def)
  have a: "2 \<notin> fst ` set [(1 :: nat, 1 :: nat)]" by simp
  have k: "capacity_after (size_' grown_table) (capacity_' grown_table) = capacity_' grown_table"
    by (simp add: capacity_after_def grown_table_def)
  note c4 = C4_erase[OF reachable_grown_world t i, of 2]
  from c4 a k have e: "erase (store grown_world) grown_table 2 = Inr (store grown_world, grown_table)"
    by auto
  with c4 have f: "find_op (store grown_world) grown_table 2 = Inr (end_iterator grown_table)"
    by auto
  show ?thesis by (intro conjI reachable_grown_world t i a e f)
qed

text \<open>C4 as stated fails: in the table with the entry \<open>(1, 1)\<close> and capacity 2, the key 2
  is absent and \<^verbatim>\<open>erase(2)\<close> rebuilds the bucket array with capacity 4.\<close>

theorem C4_counterexample:
  "reachable one_entry_world \<and> tables one_entry_world 0 = Some one_entry_table
   \<and> find_op (store one_entry_world) one_entry_table 2 = Inr (end_iterator one_entry_table)
   \<and> erase (store one_entry_world) one_entry_table 2 = Inr (store one_entry_world, grown_table)
   \<and> capacity_' one_entry_table = 2 \<and> capacity_' grown_table = 4
   \<and> hash_table_' one_entry_table = [[], [0]] \<and> hash_table_' grown_table = [[], [0], [], []]"
proof -
  have "find_op one_entry_heap one_entry_table 2 = Inr (end_iterator one_entry_table)"
    by (simp add: find_op_def evaluation one_entry_table_def one_entry_heap_def)
  with reachable_one_entry_world erase_absent_one_entry show ?thesis
    by (simp add: one_entry_world_def one_entry_table_def grown_table_def)
qed

text \<open>
  C5, at the table a move constructor has moved from. After
  \<^verbatim>\<open>m.insert({1, 1}); HashMap n(std::move(m));\<close> the table \<^verbatim>\<open>m\<close> has no entry
  under iteration, a \<^verbatim>\<open>capacity_\<close> of 2 and a bucket array with no bucket. The key 7 is
  absent, and \<^verbatim>\<open>m.at(7)\<close> does not get as far as throwing \<^verbatim>\<open>std::out_of_range\<close>:
  \<^verbatim>\<open>get_position\<close> indexes \<^verbatim>\<open>hash_table_[1]\<close> outside the bucket array. So do
  \<^verbatim>\<open>insert\<close>, \<^verbatim>\<open>erase\<close>, \<^verbatim>\<open>find\<close> and \<^verbatim>\<open>operator[]\<close> on \<^verbatim>\<open>m\<close>. (Of the
  tables in use the claim holds: \<open>at_op_in_use\<close>.)
\<close>

theorem C5_at_after_move:
  "insert_op empty_heap (HashMap_ctor identity_hash) (1, 1) = Inr (one_entry_heap, one_entry_table)
   \<and> iterate one_entry_heap (snd (HashMap_move one_entry_table)) = Inr []
   \<and> at_op one_entry_heap (snd (HashMap_move one_entry_table)) 7 = Inl index_out_of_bounds
   \<and> insert_op one_entry_heap (snd (HashMap_move one_entry_table)) (7, 7) = Inl index_out_of_bounds
   \<and> erase one_entry_heap (snd (HashMap_move one_entry_table)) 7 = Inl index_out_of_bounds
   \<and> find_op one_entry_heap (snd (HashMap_move one_entry_table)) 7 = Inl index_out_of_bounds
   \<and> subscript 0 one_entry_heap (snd (HashMap_move one_entry_table)) 7 = Inl index_out_of_bounds"
proof (intro conjI)
  show "insert_op empty_heap (HashMap_ctor identity_hash) (1, 1) = Inr (one_entry_heap, one_entry_table)"
    by (rule insert_one_entry)
  show "iterate one_entry_heap (snd (HashMap_move one_entry_table)) = Inr []"
    by (simp add: HashMap_move_def iterate_def)
  have p: "get_position one_entry_heap (snd (HashMap_move one_entry_table)) k raw_hash = Inl index_out_of_bounds"
    for k raw_hash :: nat
    by (simp add: HashMap_move_def one_entry_table_def get_position_def)
  show "at_op one_entry_heap (snd (HashMap_move one_entry_table)) 7 = Inl index_out_of_bounds"
    by (simp add: at_op_def find_op_def p)
  show "insert_op one_entry_heap (snd (HashMap_move one_entry_table)) (7, 7) = Inl index_out_of_bounds"
    by (simp add: insert_op_def add_element_def p)
  show "erase one_entry_heap (snd (HashMap_move one_entry_table)) 7 = Inl index_out_of_bounds"
    by (simp add: erase_def delete_element_def p)
  show "find_op one_entry_heap (snd (HashMap_move one_entry_table)) 7 = Inl index_out_of_bounds"
    by (simp add: find_op_def p)
  show "subscript 0 one_entry_heap (snd (HashMap_move one_entry_table)) 7 = Inl index_out_of_bounds"
    by (simp add: subscript_def add_element_def p)
qed

text \<open>
  C6, at the table a move has moved from. After \<^verbatim>\<open>m.insert({1, 1})\<close> and either
  \<^verbatim>\<open>HashMap n(std::move(m))\<close> or \<^verbatim>\<open>HashMap n; n = std::move(m)\<close> the table \<^verbatim>\<open>m\<close>
  has no entry under iteration, so both the key 7 and the key 1 are absent. \<^verbatim>\<open>m[7]\<close> and
  \<^verbatim>\<open>m[1]\<close> insert no entry and return no reference: \<^verbatim>\<open>add_element\<close> calls
  \<^verbatim>\<open>get_position\<close>, which indexes \<^verbatim>\<open>hash_table_[1]\<close> in a bucket array with no
  bucket. (Of the tables in use the claim holds: \<open>subscript_in_use\<close>.)
\<close>

theorem C6_subscript_after_move:
  "insert_op empty_heap (HashMap_ctor identity_hash) (1, 1) = Inr (one_entry_heap, one_entry_table)
   \<and> iterate one_entry_heap (snd (HashMap_move one_entry_table)) = Inr []
   \<and> subscript 0 one_entry_heap (snd (HashMap_move one_entry_table)) 7 = Inl index_out_of_bounds
   \<and> subscript 0 one_entry_heap (snd (HashMap_move one_entry_table)) 1 = Inl index_out_of_bounds
   \<and> fst (move_assign one_entry_heap (HashMap_ctor identity_hash) one_entry_table) = one_entry_heap
   \<and> iterate one_entry_heap (snd (snd (move_assign one_entry_heap (HashMap_ctor identity_hash) one_entry_table))) = Inr []
   \<and> subscript 0 one_entry_heap (snd (snd (move_assign one_entry_heap (HashMap_ctor identity_hash) one_entry_table))) 7 = Inl index_out_of_bounds
   \<and> subscript 0 one_entry_heap (snd (snd (move_assign one_entry_heap (HashMap_ctor identity_hash) one_entry_table))) 1 = Inl index_out_of_bounds"
proof (intro conjI)
  show "insert_op empty_heap (HashMap_ctor identity_hash) (1, 1) = Inr (one_entry_heap, one_entry_table)"
    by (rule insert_one_entry)
  show "iterate one_entry_heap (snd (HashMap_move one_entry_table)) = Inr []"
    by (simp add: HashMap_move_def iterate_def)
  show "fst (move_assign one_entry_heap (HashMap_ctor identity_hash) one_entry_table) = one_entry_heap"
    by (simp add: move_assign_def HashMap_ctor_def list_delete_def)
  show "iterate one_entry_heap (snd (snd (move_assign one_entry_heap (HashMap_ctor identity_hash) one_entry_table))) = Inr []"
    by (simp add: move_assign_def iterate_def)
  have p: "get_position one_entry_heap (snd (HashMap_move one_entry_table)) k raw_hash = Inl index_out_of_bounds"
    for k raw_hash :: nat
    by (simp add: HashMap_move_def one_entry_table_def get_position_def)
  have q: "get_position one_entry_heap (snd (snd (move_assign one_entry_heap (HashMap_ctor identity_hash) one_entry_table))) k raw_hash = Inl index_out_of_bounds"
    for k raw_hash :: nat
    by (simp add: move_assign_def one_entry_table_def get_position_def)
  show "subscript 0 one_entry_heap (snd (HashMap_move one_entry_table)) 7 = Inl index_out_of_bounds"
    by (simp add: subscript_def add_element_def p)
  show "subscript 0 one_entry_heap (snd (HashMap_move one_entry_table)) 1 = Inl index_out_of_bounds"
    by (simp add: subscript_def add_element_def p)
  show "subscript 0 one_entry_heap (snd (snd (move_assign one_entry_heap (HashMap_ctor identity_hash) one_entry_table))) 7 = Inl index_out_of_bounds"
    by (simp add: subscript_def add_element_def q)
  show "subscript 0 one_entry_heap (snd (snd (move_assign one_entry_heap (HashMap_ctor identity_hash) one_entry_table))) 1 = Inl index_out_of_bounds"
    by (simp add: subscript_def add_element_def q)
qed

text \<open>
  C7, at the table with one entry. The move constructor and the move assignment hand the
  list, the bucket array, the size and the capacity of the source to the destination.
  They leave the source with no entry under iteration, but with its old \<^verbatim>\<open>size_\<close>: its
  \<^verbatim>\<open>size()\<close> is still 1 and its \<^verbatim>\<open>empty()\<close> is still false. Its \<^verbatim>\<open>capacity_\<close> is
  still 2 and its bucket array has no bucket, so \<^verbatim>\<open>find\<close> on it indexes outside the array.
\<close>

theorem C7_source_after_move:
  "fst (HashMap_move one_entry_table) = one_entry_table
   \<and> iterate one_entry_heap (snd (HashMap_move one_entry_table)) = Inr []
   \<and> size_op (snd (HashMap_move one_entry_table)) = 1
   \<and> \<not> empty_op (snd (HashMap_move one_entry_table))
   \<and> find_op one_entry_heap (snd (HashMap_move one_entry_table)) 1 = Inl index_out_of_bounds
   \<and> fst (snd (move_assign one_entry_heap (HashMap_ctor identity_hash) one_entry_table)) = one_entry_table
   \<and> iterate one_entry_heap
        (snd (snd (move_assign one_entry_heap (HashMap_ctor identity_hash) one_entry_table))) = Inr []
   \<and> size_op (snd (snd (move_assign one_entry_heap (HashMap_ctor identity_hash) one_entry_table))) = 1
   \<and> \<not> empty_op (snd (snd (move_assign one_entry_heap (HashMap_ctor identity_hash) one_entry_table)))"
  by (simp add: HashMap_move_def move_assign_def one_entry_table_def size_op_def empty_op_def
      iterate_def HashMap_ctor_def find_op_def get_position_def)

text \<open>
  C8. In a reachable world, for every table \<open>t\<close>: the copy constructor returns a table
  whose iteration yields what the iteration of \<open>t\<close> yields, in the same order, and whose
  capacity is that of \<open>t\<close>; \<open>t\<close> still iterates to the same entries, also after a write
  through a reference to any entry of the copy. The same holds of the copy assignment of
  \<open>t\<close> to any other table \<open>d\<close> of the world.
\<close>

theorem C8_copy:
  assumes "reachable w" "tables w x = Some t"
  shows "(\<exists>h' c. HashMap_copy (store w) t = Inr (h', c) \<and>
            iterate h' c = iterate (store w) t \<and> capacity_' c = capacity_' t \<and>
            iterate h' t = iterate (store w) t \<and>
            (\<forall>r\<in>set (elements_' c). \<exists>h''. write_value h' r v = Inr h'' \<and>
               iterate h'' t = iterate (store w) t)) \<and>
         (\<forall>y d. tables w y = Some d \<longrightarrow> y \<noteq> x \<longrightarrow>
            (\<exists>h' c. copy_assign (store w) d t = Inr (h', c) \<and>
               iterate h' c = iterate (store w) t \<and> capacity_' c = capacity_' t \<and>
               iterate h' t = iterate (store w) t \<and>
               (\<forall>r\<in>set (elements_' c). \<exists>h''. write_value h' r v = Inr h'' \<and>
                  iterate h'' t = iterate (store w) t)))"
proof (intro conjI allI impI)
  note ok = reachable_world_ok[OF assms(1)]
  note h = reachable_table(1)[OF assms(1,2)] and c = reachable_table(2)[OF assms(1,2)]
  let ?h = "store w"
  have tb: "table_ok ?h t" by (rule world_ok_table[OF ok assms(2)])
  have below: "\<forall>a\<in>set (elements_' t). a < next_addr ?h" using consistent_below[OF h c] by blast
  {
    from HashMap_copy_ok[OF h tb] obtain h' c' where
      1: "HashMap_copy ?h t = Inr (h', c')" "heap_ok h'" "table_ok h' c'"
        "unchanged_outside {} ?h h'" "owned_after {} ?h c'"
        "iterate h' c' = iterate ?h t" "capacity_' c' = capacity_' t"
      by blast
    from 1(4) below have same: "\<forall>a\<in>set (elements_' t). cells h' a = cells ?h a"
      by (simp add: unchanged_outside_def)
    from 1(5) below have "\<forall>r\<in>set (elements_' c'). r \<notin> set (elements_' t)"
      by (fastforce simp: owned_after_def)
    then have "\<forall>r\<in>set (elements_' c'). \<exists>h''. write_value h' r v = Inr h'' \<and> iterate h'' t = iterate ?h t"
      using write_elsewhere[OF 1(2,3) _ c same] by blast
    with 1 iterate_unchanged[OF c same]
    show "\<exists>h' c. HashMap_copy ?h t = Inr (h', c) \<and>
            iterate h' c = iterate ?h t \<and> capacity_' c = capacity_' t \<and>
            iterate h' t = iterate ?h t \<and>
            (\<forall>r\<in>set (elements_' c). \<exists>h''. write_value h' r v = Inr h'' \<and>
               iterate h'' t = iterate ?h t)"
      by blast
  }
  {
    fix y d assume d: "tables w y = Some d" "y \<noteq> x"
    have td: "table_ok ?h d" by (rule world_ok_table[OF ok d(1)])
    from copy_assign_ok[OF h td tb] obtain h' c' where
      1: "copy_assign ?h d t = Inr (h', c')" "heap_ok h'" "table_ok h' c'"
        "unchanged_outside (set (elements_' d)) ?h h'"
        "set (elements_' c') \<subseteq> {a. next_addr ?h \<le> a}"
        "iterate h' c' = iterate ?h t" "capacity_' c' = capacity_' t"
      by blast
    from world_ok_disjoint[OF ok assms(2) d(1)] d(2)
    have dis: "set (elements_' t) \<inter> set (elements_' d) = {}" by blast
    with 1(4) below have same: "\<forall>a\<in>set (elements_' t). cells h' a = cells ?h a"
      by (auto simp: unchanged_outside_def)
    from 1(5) below have "\<forall>r\<in>set (elements_' c'). r \<notin> set (elements_' t)" by fastforce
    then have "\<forall>r\<in>set (elements_' c'). \<exists>h''. write_value h' r v = Inr h'' \<and> iterate h'' t = iterate ?h t"
      using write_elsewhere[OF 1(2,3) _ c same] by blast
    with 1 iterate_unchanged[OF c same]
    show "\<exists>h' c. copy_assign ?h d t = Inr (h', c) \<and>
               iterate h' c = iterate ?h t \<and> capacity_' c = capacity_' t \<and>
               iterate h' t = iterate ?h t \<and>
               (\<forall>r\<in>set (elements_' c). \<exists>h''. write_value h' r v = Inr h'' \<and>
                  iterate h'' t = iterate ?h t)"
      by blast
  }
qed

text \<open>C8 at the table with the entry \<open>(1, 1)\<close>: its copy has its own node at address 1,
  and a write of 5 to that node leaves the original at \<open>(1, 1)\<close>.\<close>

theorem C8_witness:
  "reachable two_table_world \<and> tables two_table_world 0 = Some one_entry_table
   \<and> tables two_table_world 1 = Some (HashMap_ctor identity_hash) \<and> (1 :: nat) \<noteq> 0
   \<and> HashMap_copy (store two_table_world) one_entry_table = Inr (copy_heap, copy_table)
   \<and> copy_assign (store two_table_world) (HashMap_ctor identity_hash) one_entry_table
       = Inr (copy_heap, copy_table)
   \<and> iterate copy_heap copy_table = Inr [(1, 1)]
   \<and> capacity_' copy_table = 2
   \<and> iterate copy_heap one_entry_table = Inr [(1, 1)]
   \<and> (\<exists>h''. write_value copy_heap 1 5 = Inr h'' \<and> iterate h'' one_entry_table = Inr [(1, 1)])"
proof -
  have t: "tables two_table_world 0 = Some one_entry_table" by (simp add: two_table_world_def)
  have d: "tables two_table_world 1 = Some (HashMap_ctor identity_hash)"
    by (simp add: two_table_world_def)
  have s: "store two_table_world = one_entry_heap" by (simp add: two_table_world_def)
  have c2: "capacity_' one_entry_table = 2" by (simp add: one_entry_table_def)
  have r: "1 \<in> set (elements_' copy_table)" by (simp add: copy_table_def)
  note c8 = C8_copy[OF reachable_two_table_world t, of 5, unfolded s iterate_one_entry c2]
  from c8 copy_one_entry r
  have 1: "iterate copy_heap copy_table = Inr [(1, 1)]"
    "iterate copy_heap one_entry_table = Inr [(1, 1)]"
    "\<exists>h''. write_value copy_heap 1 5 = Inr h'' \<and> iterate h'' one_entry_table = Inr [(1, 1)]"
    by auto
  have 2: "capacity_' copy_table = 2" by (simp add: copy_table_def)
  show ?thesis
    unfolding s
    by (intro conjI reachable_two_table_world t d copy_one_entry copy_assign_one_entry 1 2) simp
qed

text \<open>
  C9. In a reachable world every table has a capacity of at least the default capacity 1
  and a size of at most half its capacity. \<^verbatim>\<open>insert\<close> and \<^verbatim>\<open>erase\<close> return, and both
  bounds hold of the table they leave. A table that a move constructor or a move
  assignment has moved from keeps its \<^verbatim>\<open>size_\<close> and \<^verbatim>\<open>capacity_\<close>, so both bounds hold
  of it as well.
\<close>

theorem C9_load_factor:
  assumes "reachable w" "tables w x = Some t"
  shows "kDefaultCapacity \<le> capacity_' t \<and> size_op t \<le> capacity_' t div 2 \<and>
         (\<exists>h' t'. insert_op (store w) t el = Inr (h', t') \<and>
            size_op t' \<le> capacity_' t' div 2 \<and> kDefaultCapacity \<le> capacity_' t') \<and>
         (\<exists>h' t'. erase (store w) t k = Inr (h', t') \<and>
            size_op t' \<le> capacity_' t' div 2 \<and> kDefaultCapacity \<le> capacity_' t') \<and>
         kDefaultCapacity \<le> capacity_' (snd (HashMap_move t)) \<and>
         size_op (snd (HashMap_move t)) \<le> capacity_' (snd (HashMap_move t)) div 2 \<and>
         kDefaultCapacity \<le> capacity_' (snd (snd (move_assign (store w) d t))) \<and>
         size_op (snd (snd (move_assign (store w) d t)))
           \<le> capacity_' (snd (snd (move_assign (store w) d t))) div 2"
proof -
  note h = reachable_table(1)[OF assms(1,2)]
  have tb: "table_ok (store w) t" using reachable_table[OF assms(1,2)] by (simp add: table_ok_def)
  have bound: "kDefaultCapacity \<le> capacity_' u \<and> size_op u \<le> capacity_' u div 2"
    if "table_ok g u" for g :: "('a, 'b) heap" and u
    using that consistent_capacity[of g u]
    by (auto simp: table_ok_def load_ok_def size_op_def kDefaultCapacity_def)
  from insert_op_ok[OF h tb, of el] obtain h1 t1 where
    1: "insert_op (store w) t el = Inr (h1, t1)" "table_ok h1 t1" by blast
  from delete_element_ok[OF h tb, of k] obtain h2 t2 where
    2: "erase (store w) t k = Inr (h2, t2)" "table_ok h2 t2" by (auto simp: erase_def)
  from bound[OF tb] bound[OF 1(2)] bound[OF 2(2)] 1(1) 2(1) show ?thesis
    by (simp add: HashMap_move_def move_assign_def size_op_def)
qed

text \<open>C9 at the table with the entry \<open>(1, 1)\<close>, for \<^verbatim>\<open>insert({2, 2})\<close> and
  \<^verbatim>\<open>erase(1)\<close>.\<close>

theorem C9_witness:
  "reachable one_entry_world \<and> tables one_entry_world 0 = Some one_entry_table
   \<and> kDefaultCapacity \<le> capacity_' one_entry_table
   \<and> size_op one_entry_table \<le> capacity_' one_entry_table div 2
   \<and> (\<exists>h' t'. insert_op (store one_entry_world) one_entry_table (2, 2) = Inr (h', t') \<and>
        size_op t' \<le> capacity_' t' div 2 \<and> kDefaultCapacity \<le> capacity_' t')
   \<and> (\<exists>h' t'. erase (store one_entry_world) one_entry_table 1 = Inr (h', t') \<and>
        size_op t' \<le> capacity_' t' div 2 \<and> kDefaultCapacity \<le> capacity_' t')
   \<and> kDefaultCapacity \<le> capacity_' (snd (HashMap_move one_entry_table))
   \<and> size_op (snd (HashMap_move one_entry_table))
       \<le> capacity_' (snd (HashMap_move one_entry_table)) div 2"
proof -
  have t: "tables one_entry_world 0 = Some one_entry_table" by (simp add: one_entry_world_def)
  from C9_load_factor[OF reachable_one_entry_world t, of "(2, 2)" 1] reachable_one_entry_world t
  show ?thesis by simp
qed

text \<open>
  C10, at the table a move has moved from. After \<^verbatim>\<open>m.insert({1, 1})\<close> and either
  \<^verbatim>\<open>HashMap n(std::move(m))\<close> or \<^verbatim>\<open>HashMap n; n = std::move(m)\<close> the table \<^verbatim>\<open>m\<close>
  has a \<^verbatim>\<open>capacity_\<close> of 2 and a bucket array with no bucket. For the key 7 and the raw
  hash 7 \<^verbatim>\<open>get_position\<close> computes the bucket index 1 and indexes outside the bucket
  array, and so do \<^verbatim>\<open>find\<close>, \<^verbatim>\<open>at\<close>, \<^verbatim>\<open>operator[]\<close>, \<^verbatim>\<open>insert\<close> and
  \<^verbatim>\<open>erase\<close>. (Of the tables in use the claim holds: \<open>bucket_index_in_use\<close>.)
\<close>

theorem C10_buckets_after_move:
  "insert_op empty_heap (HashMap_ctor identity_hash) (1, 1) = Inr (one_entry_heap, one_entry_table)
   \<and> capacity_' (snd (HashMap_move one_entry_table)) = 2
   \<and> length (hash_table_' (snd (HashMap_move one_entry_table))) = 0
   \<and> get_position one_entry_heap (snd (HashMap_move one_entry_table)) 7 7 = Inl index_out_of_bounds
   \<and> find_op one_entry_heap (snd (HashMap_move one_entry_table)) 7 = Inl index_out_of_bounds
   \<and> at_op one_entry_heap (snd (HashMap_move one_entry_table)) 7 = Inl index_out_of_bounds
   \<and> subscript 0 one_entry_heap (snd (HashMap_move one_entry_table)) 7 = Inl index_out_of_bounds
   \<and> insert_op one_entry_heap (snd (HashMap_move one_entry_table)) (7, 7) = Inl index_out_of_bounds
   \<and> erase one_entry_heap (snd (HashMap_move one_entry_table)) 7 = Inl index_out_of_bounds
   \<and> capacity_' (snd (snd (move_assign one_entry_heap (HashMap_ctor identity_hash) one_entry_table))) = 2
   \<and> length (hash_table_' (snd (snd (move_assign one_entry_heap (HashMap_ctor identity_hash) one_entry_table)))) = 0
   \<and> get_position one_entry_heap (snd (snd (move_assign one_entry_heap (HashMap_ctor identity_hash) one_entry_table))) 7 7 = Inl index_out_of_bounds
   \<and> find_op one_entry_heap (snd (snd (move_assign one_entry_heap (HashMap_ctor identity_hash) one_entry_table))) 7 = Inl index_out_of_bounds"
proof (intro conjI)
  show "insert_op empty_heap (HashMap_ctor identity_hash) (1, 1) = Inr (one_entry_heap, one_entry_table)"
    by (rule insert_one_entry)
  show "capacity_' (snd (HashMap_move one_entry_table)) = 2"
    by (simp add: HashMap_move_def one_entry_table_def)
  show "length (hash_table_' (snd (HashMap_move one_entry_table))) = 0"
    by (simp add: HashMap_move_def)
  show "capacity_' (snd (snd (move_assign one_entry_heap (HashMap_ctor identity_hash) one_entry_table))) = 2"
    by (simp add: move_assign_def one_entry_table_def)
  show "length (hash_table_' (snd (snd (move_assign one_entry_heap (HashMap_ctor identity_hash) one_entry_table)))) = 0"
    by (simp add: move_assign_def)
  have p: "get_position one_entry_heap (snd (HashMap_move one_entry_table)) k raw_hash = Inl index_out_of_bounds"
    for k raw_hash :: nat
    by (simp add: HashMap_move_def one_entry_table_def get_position_def)
  have q: "get_position one_entry_heap (snd (snd (move_assign one_entry_heap (HashMap_ctor identity_hash) one_entry_table))) k raw_hash = Inl index_out_of_bounds"
    for k raw_hash :: nat
    by (simp add: move_assign_def one_entry_table_def get_position_def)
  show "get_position one_entry_heap (snd (HashMap_move one_entry_table)) 7 7 = Inl index_out_of_bounds"
    by (rule p)
  show "find_op one_entry_heap (snd (HashMap_move one_entry_table)) 7 = Inl index_out_of_bounds"
    by (simp add: find_op_def p)
  show "at_op one_entry_heap (snd (HashMap_move one_entry_table)) 7 = Inl index_out_of_bounds"
    by (simp add: at_op_def find_op_def p)
  show "subscript 0 one_entry_heap (snd (HashMap_move one_entry_table)) 7 = Inl index_out_of_bounds"
    by (simp add: subscript_def add_element_def p)
  show "insert_op one_entry_heap (snd (HashMap_move one_entry_table)) (7, 7) = Inl index_out_of_bounds"
    by (simp add: insert_op_def add_element_def p)
  show "erase one_entry_heap (snd (HashMap_move one_entry_table)) 7 = Inl index_out_of_bounds"
    by (simp add: erase_def delete_element_def p)
  show "get_position one_entry_heap (snd (snd (move_assign one_entry_heap (HashMap_ctor identity_hash) one_entry_table))) 7 7 = Inl index_out_of_bounds"
    by (rule q)
  show "find_op one_entry_heap (snd (snd (move_assign one_entry_heap (HashMap_ctor identity_hash) one_entry_table))) 7 = Inl index_out_of_bounds"
    by (simp add: find_op_def q)
qed

end
